theory Spec2Isabelle
  imports Main "HOL-Library.Finite_Map" "HOL-Library.Multiset" "HOL-Library.Word"
begin

section \<open>Connectivity graph (package topology)\<close>

text \<open>
  \<^verbatim>\<open>type TopologyEvent struct { Node string; Neighbors []string }\<close> and
  \<^verbatim>\<open>type Graph struct { mu sync.RWMutex; edges map[string][]string }\<close>.
  The lock serialises the operations, so each one is a function of the edge map. A Go map
  is finite and unordered: a finite map. Strings are byte sequences.

  \<^verbatim>\<open>Update\<close> and \<^verbatim>\<open>FindPath\<close> are modelled first with every neighbor list as a value. No
  two entries of the map share a backing array, so an \<^verbatim>\<open>append\<close> to one entry cannot change
  another: the second model, with the slices and their arrays written out, computes the same
  lists (\<open>Update_mem_refines\<close> below).
\<close>

type_synonym bytes = "char list"

record TopologyEvent =
  Node :: string
  Neighbors :: "string list"

type_synonym Graph = "(string, string list) fmap"

definition NewGraph :: Graph where
  "NewGraph = fmempty"

text \<open>\<^verbatim>\<open>g.edges[k]\<close>: reading a missing key yields the zero value, the nil slice, which has
  no elements.\<close>

definition index_edges :: "Graph \<Rightarrow> string \<Rightarrow> string list" where
  "index_edges g k = (case fmlookup g k of None \<Rightarrow> [] | Some ns \<Rightarrow> ns)"

text \<open>The loop of \<^verbatim>\<open>Update\<close> that adds the reverse edges, one neighbor at a time; the inner
  search loop computes \<^verbatim>\<open>found\<close>.\<close>

fun add_reverse :: "string \<Rightarrow> string list \<Rightarrow> Graph \<Rightarrow> Graph" where
  "add_reverse node [] g = g"
| "add_reverse node (neighbor # rest) g =
     (let existing = index_edges g neighbor;
          found = (node \<in> set existing)
      in if \<not> found then add_reverse node rest (fmupd neighbor (existing @ [node]) g)
         else add_reverse node rest g)"

text \<open>\<^verbatim>\<open>json.Unmarshal\<close> belongs to the Go standard library; it is a parameter
  \<open>unmarshal\<close> that yields the decoded event, or \<open>None\<close> when it returns an error.\<close>

definition Update :: "(bytes \<Rightarrow> TopologyEvent option) \<Rightarrow> Graph \<Rightarrow> bytes \<Rightarrow> Graph" where
  "Update unmarshal g eventData =
     (case unmarshal eventData of
        None \<Rightarrow> g
      | Some event \<Rightarrow>
          add_reverse (Node event) (Neighbors event) (fmupd (Node event) (Neighbors event) g))"

text \<open>The breadth-first search of \<^verbatim>\<open>FindPath\<close>. The inner loop over the neighbors of the
  dequeued path's last node either returns the path to the target or goes on with the
  extended queue and visited set.\<close>

datatype scan = Found "string list" | Continue "string list list" "string set"

fun scan_neighbors ::
  "string \<Rightarrow> string list \<Rightarrow> string list \<Rightarrow> string list list \<Rightarrow> string set \<Rightarrow> scan" where
  "scan_neighbors to path [] queue visited = Continue queue visited"
| "scan_neighbors to path (neighbor # rest) queue visited =
     (if neighbor = to then Found (path @ [neighbor])
      else if neighbor \<notin> visited
        then scan_neighbors to path rest (queue @ [path @ [neighbor]]) (insert neighbor visited)
        else scan_neighbors to path rest queue visited)"

text \<open>Every node that occurs in a neighbor list.\<close>

definition listed :: "Graph \<Rightarrow> string set" where
  "listed g = \<Union> (set ` fmran' g)"

lemma finite_listed: "finite (listed g)"
  by (simp add: listed_def fmran'_alt_def)

lemma index_edges_listed: "set (index_edges g k) \<subseteq> listed g"
proof
  fix x assume "x \<in> set (index_edges g k)"
  then obtain ns where "fmlookup g k = Some ns" "x \<in> set ns"
    by (cases "fmlookup g k") (auto simp: index_edges_def)
  then show "x \<in> listed g"
    unfolding listed_def using fmran'I by fastforce
qed

lemma scan_neighbors_measure:
  "scan_neighbors to path ns queue visited = Continue q v \<Longrightarrow> set ns \<subseteq> U \<Longrightarrow> finite U \<Longrightarrow>
   card (U - v) + length q = card (U - visited) + length queue"
proof (induction ns arbitrary: queue visited)
  case Nil
  then show ?case by simp
next
  case (Cons n ns)
  show ?case
  proof (cases "n = to")
    case True
    with Cons.prems show ?thesis by simp
  next
    case neq: False
    show ?thesis
    proof (cases "n \<in> visited")
      case True
      with neq Cons show ?thesis by simp
    next
      case False
      with neq Cons.prems have
        "scan_neighbors to path ns (queue @ [path @ [n]]) (insert n visited) = Continue q v"
        by simp
      from Cons.IH [OF this] Cons.prems have
        "card (U - v) + length q = card (U - insert n visited) + Suc (length queue)"
        by simp
      moreover have mem: "n \<in> U - visited" using Cons.prems False by simp
      have fin: "finite (U - visited)" using \<open>finite U\<close> by simp
      have "U - insert n visited = (U - visited) - {n}" by blast
      then have "Suc (card (U - insert n visited)) = card (U - visited)"
        using card_Suc_Diff1 [OF fin mem] by simp
      ultimately show ?thesis by simp
    qed
  qed
qed

text \<open>The outer loop: \<^verbatim>\<open>path[len(path)-1]\<close> panics on an empty path.\<close>

datatype 'a outcome = Panic | Return 'a

function bfs :: "Graph \<Rightarrow> string \<Rightarrow> string list list \<Rightarrow> string set \<Rightarrow> string list option outcome"
  where
  "bfs g to [] visited = Return None"
| "bfs g to (path # queue) visited =
     (if path = [] then Panic
      else case scan_neighbors to path (index_edges g (last path)) queue visited of
             Found p \<Rightarrow> Return (Some p)
           | Continue q v \<Rightarrow> bfs g to q v)"
  by pat_completeness auto
termination
proof (relation "measure (\<lambda>(g, to, queue, visited). card (listed g - visited) + length queue)")
  show "wf (measure (\<lambda>(g, to, queue, visited). card (listed g - visited) + length queue))"
    by simp
next
  fix g to path queue visited q v
  assume "scan_neighbors to path (index_edges g (last path)) queue visited = Continue q v"
  from scan_neighbors_measure [OF this index_edges_listed finite_listed]
  show "((g, to, q, v), (g, to, path # queue, visited))
        \<in> measure (\<lambda>(g, to, queue, visited). card (listed g - visited) + length queue)"
    by simp
qed

definition FindPath :: "Graph \<Rightarrow> string \<Rightarrow> string \<Rightarrow> string list option outcome" where
  "FindPath g from to =
     (if from = to then Return (Some [from]) else bfs g to [[from]] {from})"

text \<open>A run of the event loop: \<^verbatim>\<open>handleUserEvent\<close> passes each topology payload to
  \<^verbatim>\<open>Update\<close>, in order.\<close>

definition Updates :: "(bytes \<Rightarrow> TopologyEvent option) \<Rightarrow> Graph \<Rightarrow> bytes list \<Rightarrow> Graph" where
  "Updates unmarshal g payloads = foldl (Update unmarshal) g payloads"

text \<open>What \<^verbatim>\<open>json.Unmarshal\<close> decodes from the payloads of the examples below; every other
  payload is treated as malformed.\<close>

definition sample_unmarshal :: "bytes \<Rightarrow> TopologyEvent option" where
  \<open>sample_unmarshal eventData =
     (if eventData = ''{"n":"a","nb":["b"]}'' then Some \<lparr>Node = ''a'', Neighbors = [''b'']\<rparr>
      else if eventData = ''{"n":"a","nb":[]}'' then Some \<lparr>Node = ''a'', Neighbors = []\<rparr>
      else if eventData = ''{"n":"b","nb":["a","c"]}''
        then Some \<lparr>Node = ''b'', Neighbors = [''a'', ''c'']\<rparr>
      else if eventData = ''{"n":"b","nb":["c"]}'' then Some \<lparr>Node = ''b'', Neighbors = [''c'']\<rparr>
      else if eventData = ''{"n":"c","nb":["d"]}'' then Some \<lparr>Node = ''c'', Neighbors = [''d'']\<rparr>
      else if eventData = ''{"n":"heimdall","nb":["b"]}''
        then Some \<lparr>Node = ''heimdall'', Neighbors = [''b'']\<rparr>
      else if eventData = ''{"n":"heimdall","nb":["d"]}''
        then Some \<lparr>Node = ''heimdall'', Neighbors = [''d'']\<rparr>
      else None)\<close>

text \<open>A walk along recorded edges: a non-empty list of node names in which every node is
  in the stored neighbor list of the one before it. The edges are read in the direction in
  which \<^verbatim>\<open>FindPath\<close> follows them.\<close>

fun walk :: "Graph \<Rightarrow> string list \<Rightarrow> bool" where
  "walk g [] = False"
| "walk g [v] = True"
| "walk g (u # v # rest) = (v \<in> set (index_edges g u) \<and> walk g (v # rest))"

text \<open>\<open>connects g a b p\<close>: \<open>p\<close> is a walk of \<open>g\<close> that starts at \<open>a\<close> and ends at \<open>b\<close>.\<close>

definition connects :: "Graph \<Rightarrow> string \<Rightarrow> string \<Rightarrow> string list \<Rightarrow> bool" where
  "connects g a b p \<longleftrightarrow> walk g p \<and> hd p = a \<and> last p = b"

text \<open>The invariants of the search, for a search that started at \<open>from\<close>. A queued path is a
  shortest walk to its last node; every walk to a node not yet visited is longer than \<open>k\<close>
  nodes.\<close>

definition shortest :: "Graph \<Rightarrow> string \<Rightarrow> string list \<Rightarrow> bool" where
  "shortest g from p \<longleftrightarrow>
     connects g from (last p) p \<and> (\<forall>w. connects g from (last p) w \<longrightarrow> length p \<le> length w)"

definition beyond :: "Graph \<Rightarrow> string \<Rightarrow> string set \<Rightarrow> nat \<Rightarrow> bool" where
  "beyond g from visited k \<longleftrightarrow>
     (\<forall>w b. connects g from b w \<longrightarrow> b \<notin> visited \<longrightarrow> k < length w)"

text \<open>At the head of the outer loop: the queued paths are shortest walks to visited nodes, in
  order of length and at most one longer than the first; a visited node that is no longer
  queued has all its neighbors visited; the target is not visited.\<close>

definition bfs_inv :: "Graph \<Rightarrow> string \<Rightarrow> string \<Rightarrow> string list list \<Rightarrow> string set \<Rightarrow> bool" where
  "bfs_inv g from to queue visited \<longleftrightarrow>
     to \<notin> visited \<and> from \<in> visited \<and>
     (\<forall>p \<in> set queue. shortest g from p \<and> last p \<in> visited \<and> length p \<le> Suc (length (hd queue))) \<and>
     sorted (map length queue) \<and>
     (\<forall>x \<in> visited. x \<notin> last ` set queue \<longrightarrow> set (index_edges g x) \<subseteq> visited) \<and>
     (queue \<noteq> [] \<longrightarrow> beyond g from visited (length (hd queue)))"

text \<open>Inside the loop over the neighbors of the dequeued \<open>path\<close>, with \<open>ns\<close> still to scan.\<close>

definition scan_inv ::
  "Graph \<Rightarrow> string \<Rightarrow> string \<Rightarrow> string list \<Rightarrow> string list \<Rightarrow> string list list \<Rightarrow> string set \<Rightarrow> bool"
  where
  "scan_inv g from to path ns queue visited \<longleftrightarrow>
     to \<notin> visited \<and> from \<in> visited \<and>
     connects g from (last path) path \<and>
     set ns \<subseteq> set (index_edges g (last path)) \<and>
     (\<forall>p \<in> set queue. shortest g from p \<and> last p \<in> visited \<and>
         length path \<le> length p \<and> length p \<le> Suc (length path)) \<and>
     sorted (map length queue) \<and>
     (\<forall>x \<in> visited. x \<notin> last ` set queue \<longrightarrow> x \<noteq> last path \<longrightarrow>
         set (index_edges g x) \<subseteq> visited) \<and>
     set (index_edges g (last path)) \<subseteq> visited \<union> set ns \<and>
     beyond g from visited (length path)"

text \<open>The graph after two announcements: \<open>a\<close> lists \<open>b\<close>; \<open>b\<close> lists \<open>a\<close> and \<open>c\<close>; \<open>c\<close> lists
  \<open>b\<close> by the reverse edge.\<close>

definition sample_graph :: Graph where
  \<open>sample_graph =
     Updates sample_unmarshal NewGraph [''{"n":"a","nb":["b"]}'', ''{"n":"b","nb":["a","c"]}'']\<close>

subsection \<open>Slices and their arrays\<close>

text \<open>The edge map stores slices: a slice is nil or a pointer to a backing array with a length;
  its capacity is the length of the array (every slice of the graph starts at the beginning
  of its array). \<^verbatim>\<open>GetNeighbors\<close> is about which array a slice points to, so the map is
  modelled again with the arrays written out, as a list indexed by address; an allocation
  adds an array at the end.\<close>

type_synonym addr = nat

datatype slice = NilSlice | Slice addr nat

record Memory =
  edges :: "(string, slice) fmap"
  arrays :: "string list list"

text \<open>\<^verbatim>\<open>len(s)\<close> and the elements \<^verbatim>\<open>s[0], ..., s[len(s)-1]\<close>.\<close>

fun slice_len :: "slice \<Rightarrow> nat" where
  "slice_len NilSlice = 0"
| "slice_len (Slice p n) = n"

fun elems :: "string list list \<Rightarrow> slice \<Rightarrow> string list" where
  "elems h NilSlice = []"
| "elems h (Slice p n) = take n (h ! p)"

text \<open>\<^verbatim>\<open>g.edges[k]\<close>: the nil slice for a missing key.\<close>

definition edges_at :: "Memory \<Rightarrow> string \<Rightarrow> slice" where
  "edges_at m k = (case fmlookup (edges m) k of None \<Rightarrow> NilSlice | Some s \<Rightarrow> s)"

text \<open>\<^verbatim>\<open>make([]string, n)\<close> allocates an array of \<open>n\<close> empty strings;
  \<^verbatim>\<open>copy(dst, src)\<close> overwrites the first \<open>min(len(dst), len(src))\<close> elements of \<open>dst\<close>.\<close>

definition make_slice :: "nat \<Rightarrow> string list list \<Rightarrow> slice \<times> string list list" where
  "make_slice n h = (Slice (length h) n, h @ [replicate n []])"

fun copy_slice :: "slice \<Rightarrow> slice \<Rightarrow> string list list \<Rightarrow> string list list" where
  "copy_slice NilSlice src h = h"
| "copy_slice (Slice p n) src h =
     (let k = min n (slice_len src) in h[p := take k (elems h src) @ drop k (h ! p)])"

definition GetNeighbors :: "Memory \<Rightarrow> string \<Rightarrow> slice \<times> Memory" where
  "GetNeighbors m node =
     (let neighbors = edges_at m node;
          (result, h) = make_slice (slice_len neighbors) (arrays m)
      in (result, m\<lparr>arrays := copy_slice result neighbors h\<rparr>))"

text \<open>A well-formed memory: every stored slice points into an allocated array and is not
  longer than it, and no two entries of the map share an array.\<close>

definition valid :: "Memory \<Rightarrow> bool" where
  "valid m \<longleftrightarrow>
     (\<forall>k p n. fmlookup (edges m) k = Some (Slice p n) \<longrightarrow>
        p < length (arrays m) \<and> n \<le> length (arrays m ! p)) \<and>
     (\<forall>k k' p n n'. fmlookup (edges m) k = Some (Slice p n) \<longrightarrow>
        fmlookup (edges m) k' = Some (Slice p n') \<longrightarrow> k = k')"

text \<open>The edge map read as lists: what the other operations see.\<close>

definition graph_of :: "Memory \<Rightarrow> Graph" where
  "graph_of m = fmmap (elems (arrays m)) (edges m)"

text \<open>\<^verbatim>\<open>append(s, x)\<close> writes into the array when the capacity allows it and allocates a
  larger one otherwise. How much spare capacity the runtime gives a new array of \<open>n\<close>
  elements is the parameter \<open>spare\<close>. \<^verbatim>\<open>json.Unmarshal\<close> allocates the neighbor slice of
  the decoded event; an empty list is the nil slice, which behaves as an empty slice
  without capacity does.\<close>

definition append_slice ::
  "(nat \<Rightarrow> nat) \<Rightarrow> slice \<Rightarrow> string \<Rightarrow> string list list \<Rightarrow> slice \<times> string list list" where
  "append_slice spare s x h =
     (case s of
        NilSlice \<Rightarrow> (Slice (length h) 1, h @ [x # replicate (spare 1) []])
      | Slice p n \<Rightarrow>
          if n < length (h ! p) then (Slice p (Suc n), h[p := (h ! p)[n := x]])
          else (Slice (length h) (Suc n),
                h @ [take n (h ! p) @ x # replicate (spare (Suc n)) []]))"

definition decoded ::
  "(nat \<Rightarrow> nat) \<Rightarrow> string list \<Rightarrow> string list list \<Rightarrow> slice \<times> string list list" where
  "decoded spare ns h =
     (if ns = [] then (NilSlice, h)
      else (Slice (length h) (length ns), h @ [ns @ replicate (spare (length ns)) []]))"

text \<open>\<^verbatim>\<open>Update\<close> on the memory: the \<^verbatim>\<open>range\<close> loop reads element \<open>i\<close> of the event's slice
  from its array in each iteration.\<close>

function add_reverse_mem :: "(nat \<Rightarrow> nat) \<Rightarrow> string \<Rightarrow> slice \<Rightarrow> nat \<Rightarrow> Memory \<Rightarrow> Memory" where
  "add_reverse_mem spare node s i m =
     (if i < slice_len s then
        (let neighbor = elems (arrays m) s ! i;
             existing = edges_at m neighbor;
             found = (node \<in> set (elems (arrays m) existing))
         in if \<not> found then
              (case append_slice spare existing node (arrays m) of
                 (s', h) \<Rightarrow>
                   add_reverse_mem spare node s (Suc i)
                     (m\<lparr>edges := fmupd neighbor s' (edges m), arrays := h\<rparr>))
            else add_reverse_mem spare node s (Suc i) m)
      else m)"
  by pat_completeness auto
termination
  by (relation "measure (\<lambda>(spare, node, s, i, m). slice_len s - i)") auto

declare add_reverse_mem.simps [simp del]

definition Update_mem ::
  "(nat \<Rightarrow> nat) \<Rightarrow> (bytes \<Rightarrow> TopologyEvent option) \<Rightarrow> Memory \<Rightarrow> bytes \<Rightarrow> Memory" where
  "Update_mem spare unmarshal m eventData =
     (case unmarshal eventData of
        None \<Rightarrow> m
      | Some event \<Rightarrow>
          (case decoded spare (Neighbors event) (arrays m) of
             (s, h) \<Rightarrow>
               add_reverse_mem spare (Node event) s 0
                 (m\<lparr>edges := fmupd (Node event) s (edges m), arrays := h\<rparr>)))"

definition NewGraph_mem :: Memory where
  "NewGraph_mem = \<lparr>edges = fmempty, arrays = []\<rparr>"

definition Updates_mem ::
  "(nat \<Rightarrow> nat) \<Rightarrow> (bytes \<Rightarrow> TopologyEvent option) \<Rightarrow> Memory \<Rightarrow> bytes list \<Rightarrow> Memory" where
  "Updates_mem spare unmarshal m payloads = foldl (Update_mem spare unmarshal) m payloads"

text \<open>A memory after three announcements, with a runtime that gives every new array as many
  spare elements as it has elements.\<close>

definition sample_memory :: Memory where
  \<open>sample_memory =
     Updates_mem (\<lambda>n. n) sample_unmarshal NewGraph_mem
       [''{"n":"b","nb":["a","c"]}'', ''{"n":"c","nb":["d"]}'', ''{"n":"a","nb":[]}'']\<close>

section \<open>Observer API (package api)\<close>

text \<open>\<^verbatim>\<open>serf.Member\<close> of package serf: name, address, port, tags and status of a mesh member. A
  Go map read \<^verbatim>\<open>m[k]\<close> yields the empty string for a missing key.\<close>

record Member =
  Name :: string
  Addr :: string
  Port :: "16 word"
  Tags :: "string \<rightharpoonup> string"
  Status :: string

definition tag :: "(string \<rightharpoonup> string) \<Rightarrow> string \<Rightarrow> string" where
  "tag tags k = (case tags k of None \<Rightarrow> [] | Some v \<Rightarrow> v)"

text \<open>\<^verbatim>\<open>ServiceInfo\<close>, one element of the JSON array in the \<^verbatim>\<open>services\<close> tag.\<close>

record ServiceInfo =
  info_Name :: string
  info_Type :: string
  info_Address :: string
  info_Upstreams :: "string list"

text \<open>\<^verbatim>\<open>observerv1.ServiceStatus\<close> (the values that \<^verbatim>\<open>mapStatus\<close> returns),
  \<^verbatim>\<open>observerv1.Service\<close> and \<^verbatim>\<open>observerv1.Topology\<close>, the messages of the API;
  \<^verbatim>\<open>buildTopology\<close> leaves the resources of a service unset.\<close>

datatype ServiceStatus =
    SERVICE_STATUS_HEALTHY
  | SERVICE_STATUS_UNHEALTHY
  | SERVICE_STATUS_UNKNOWN

record Service =
  svc_Name :: string
  svc_Type :: string
  svc_Address :: string
  svc_NodeName :: string
  svc_Upstreams :: "string list"
  svc_Status :: ServiceStatus
  svc_Tags :: "string \<rightharpoonup> string"

record Topology =
  Services :: "Service list"
  Timestamp :: int

text \<open>Modelled from the spec: the strings of \<^verbatim>\<open>serf.MemberStatus.String()\<close>, which belong to
  the serf library and not to the repository. The spec names the statuses alive, leaving,
  left and failed, as do the comment of \<^verbatim>\<open>Member.Status\<close> and \<^verbatim>\<open>TestMapStatus\<close>.\<close>

definition StatusAlive_String :: string where
  "StatusAlive_String = ''alive''"

definition StatusLeaving_String :: string where
  "StatusLeaving_String = ''leaving''"

definition StatusLeft_String :: string where
  "StatusLeft_String = ''left''"

definition StatusFailed_String :: string where
  "StatusFailed_String = ''failed''"

text \<open>\<^verbatim>\<open>mapStatus\<close>: the switch, case by case.\<close>

definition mapStatus :: "string \<Rightarrow> ServiceStatus" where
  "mapStatus status =
     (if status = StatusAlive_String then SERVICE_STATUS_HEALTHY
      else if status = StatusLeaving_String \<or> status = StatusLeft_String
        then SERVICE_STATUS_UNHEALTHY
      else if status = StatusFailed_String then SERVICE_STATUS_UNHEALTHY
      else SERVICE_STATUS_UNKNOWN)"

text \<open>\<^verbatim>\<open>buildTopology\<close>. The inner loop appends one service for each decoded
  \<^verbatim>\<open>ServiceInfo\<close>; the outer loop goes through the members. \<^verbatim>\<open>json.Unmarshal\<close> into
  \<^verbatim>\<open>[]ServiceInfo\<close> is the parameter \<open>unmarshal\<close>; \<^verbatim>\<open>s.mesh.Members()\<close> and
  \<^verbatim>\<open>time.Now().UnixMilli()\<close> are the arguments \<open>members\<close> and \<open>now\<close>: the members in the
  order in which that call of \<^verbatim>\<open>Members()\<close> returns them.\<close>

fun append_infos :: "Member \<Rightarrow> ServiceInfo list \<Rightarrow> Service list \<Rightarrow> Service list" where
  "append_infos member [] services = services"
| "append_infos member (info # rest) services =
     append_infos member rest
       (services @
        [\<lparr>svc_Name = info_Name info, svc_Type = info_Type info, svc_Address = info_Address info,
          svc_NodeName = Name member, svc_Upstreams = info_Upstreams info,
          svc_Status = mapStatus (Status member), svc_Tags = Tags member\<rparr>])"

fun append_members ::
  "(string \<Rightarrow> ServiceInfo list option) \<Rightarrow> Member list \<Rightarrow> Service list \<Rightarrow> Service list" where
  "append_members unmarshal [] services = services"
| "append_members unmarshal (member # rest) services =
     (case Tags member ''services'' of
        Some servicesJSON \<Rightarrow>
          (case unmarshal servicesJSON of
             None \<Rightarrow> append_members unmarshal rest services
           | Some serviceInfos \<Rightarrow>
               append_members unmarshal rest (append_infos member serviceInfos services))
      | None \<Rightarrow>
          if tag (Tags member) ''service_type'' \<noteq> []
          then append_members unmarshal rest
            (services @
             [\<lparr>svc_Name = tag (Tags member) ''service_name'',
               svc_Type = tag (Tags member) ''service_type'', svc_Address = Addr member,
               svc_NodeName = Name member, svc_Upstreams = [],
               svc_Status = mapStatus (Status member), svc_Tags = Tags member\<rparr>])
          else append_members unmarshal rest services)"

definition buildTopology ::
  "(string \<Rightarrow> ServiceInfo list option) \<Rightarrow> Member list \<Rightarrow> int \<Rightarrow> Topology" where
  "buildTopology unmarshal members now =
     \<lparr>Services = append_members unmarshal members [], Timestamp = now\<rparr>"

text \<open>\<^verbatim>\<open>GetServiceResources\<close>. Errors are \<^verbatim>\<open>connect\<close> codes. The request to the entry node goes
  through \<^verbatim>\<open>net/http\<close>: the parameter \<open>post\<close> stands for building, sending and decoding it,
  with one result for each outcome that the source tells apart. The path sent is
  \<^verbatim>\<open>path[1:]\<close>; the observer's own node name is the literal \<^verbatim>\<open>"heimdall"\<close>.\<close>

datatype Code = CodeNotFound | CodeUnavailable | CodeInternal

typedecl float64

record Field =
  field_Name :: string
  field_Type :: string
  field_Values :: "string list"
  field_Min :: "float64 option"
  field_Max :: "float64 option"

record Resource =
  res_Name :: string
  res_RowCount :: "32 word"
  res_Fields :: "Field list"
  res_PluralName :: string

record LokiService =
  loki_ServiceName :: string
  loki_Resources :: "Resource list"

record LokiRequest =
  req_serviceName :: string
  req_path :: "string list"
  req_currentHop :: int

datatype http_result =
    MarshalError
  | NewRequestError
  | DoError
  | StatusNotOK
  | DecodeError
  | Decoded "LokiService list"

definition respond :: "http_result \<Rightarrow> Code + Resource list" where
  "respond r =
     (case r of
        MarshalError \<Rightarrow> Inl CodeInternal
      | NewRequestError \<Rightarrow> Inl CodeInternal
      | DoError \<Rightarrow> Inl CodeUnavailable
      | StatusNotOK \<Rightarrow> Inl CodeInternal
      | DecodeError \<Rightarrow> Inl CodeInternal
      | Decoded services \<Rightarrow> Inr (concat (map loki_Resources services)))"

definition GetServiceResources ::
  "(string \<Rightarrow> ServiceInfo list option) \<Rightarrow> (string \<Rightarrow> LokiRequest \<Rightarrow> http_result) \<Rightarrow>
   Member list \<Rightarrow> int \<Rightarrow> Graph \<Rightarrow> string \<Rightarrow> (Code + Resource list) outcome" where
  "GetServiceResources unmarshal post members now graph ServiceName =
     (let topology = buildTopology unmarshal members now in
      case find (\<lambda>svc. svc_Name svc = ServiceName) (Services topology) of
        None \<Rightarrow> Return (Inl CodeNotFound)
      | Some targetService \<Rightarrow>
          (case FindPath graph ''heimdall'' (svc_NodeName targetService) of
             Panic \<Rightarrow> Panic
           | Return None \<Rightarrow> Return (Inl CodeUnavailable)
           | Return (Some path) \<Rightarrow>
               if length path > 1 then
                 (let entryNode = path ! 1;
                      entryAddr =
                        (case find (\<lambda>svc. svc_NodeName svc = entryNode) (Services topology) of
                           None \<Rightarrow> []
                         | Some svc \<Rightarrow> svc_Address svc)
                  in if entryAddr = [] then Return (Inl CodeInternal)
                     else Return (respond
                       (post (''http://'' @ entryAddr @ ''/meta.v1.LokiMetaService/GetResources'')
                          \<lparr>req_serviceName = ServiceName, req_path = tl path,
                            req_currentHop = 0\<rparr>)))
               else Return (Inl CodeInternal)))"

text \<open>Examples: what \<^verbatim>\<open>json.Unmarshal\<close> decodes from two \<^verbatim>\<open>services\<close> tags; four members, of
  which \<open>heimdall\<close> uses the old tag pair and \<open>e\<close> carries a tag that does not decode; an
  entry node that answers the request for service \<open>z\<close>; and the graphs after one
  announcement of \<open>heimdall\<close>.\<close>

definition sample_services :: "string \<Rightarrow> ServiceInfo list option" where
  \<open>sample_services servicesJSON =
     (if servicesJSON = ''[{"name":"x","type":"http","address":""},{"name":"y","type":"http","address":"10.0.0.2:8080"}]''
      then Some [\<lparr>info_Name = ''x'', info_Type = ''http'', info_Address = [], info_Upstreams = []\<rparr>,
                 \<lparr>info_Name = ''y'', info_Type = ''http'', info_Address = ''10.0.0.2:8080'',
                   info_Upstreams = []\<rparr>]
      else if servicesJSON = ''[{"name":"z","type":"tcp","address":"10.0.0.4:9000","upstreams":["y"]}]''
      then Some [\<lparr>info_Name = ''z'', info_Type = ''tcp'', info_Address = ''10.0.0.4:9000'',
                   info_Upstreams = [''y'']\<rparr>]
      else None)\<close>

definition member_b :: Member where
  \<open>member_b = \<lparr>Name = ''b'', Addr = ''10.0.0.2'', Port = 7946,
     Tags = [''services'' \<mapsto> ''[{"name":"x","type":"http","address":""},{"name":"y","type":"http","address":"10.0.0.2:8080"}]''],
     Status = ''alive''\<rparr>\<close>

definition member_d :: Member where
  \<open>member_d = \<lparr>Name = ''d'', Addr = ''10.0.0.4'', Port = 7946,
     Tags = [''services'' \<mapsto> ''[{"name":"z","type":"tcp","address":"10.0.0.4:9000","upstreams":["y"]}]''],
     Status = ''leaving''\<rparr>\<close>

definition member_heimdall :: Member where
  "member_heimdall = \<lparr>Name = ''heimdall'', Addr = ''10.0.0.1'', Port = 7946,
     Tags = [''service_name'' \<mapsto> ''api'', ''service_type'' \<mapsto> ''http''],
     Status = ''failed''\<rparr>"

definition member_broken :: Member where
  "member_broken = \<lparr>Name = ''e'', Addr = ''10.0.0.5'', Port = 7946,
     Tags = [''services'' \<mapsto> ''not json'', ''service_type'' \<mapsto> ''http''],
     Status = ''alive''\<rparr>"

definition sample_members :: "Member list" where
  "sample_members = [member_heimdall, member_b, member_broken, member_d]"

definition sample_post :: "string \<Rightarrow> LokiRequest \<Rightarrow> http_result" where
  "sample_post url request =
     (if url = ''http://10.0.0.4:9000/meta.v1.LokiMetaService/GetResources''
        \<and> request = \<lparr>req_serviceName = ''z'', req_path = [''d''], req_currentHop = 0\<rparr>
      then Decoded [\<lparr>loki_ServiceName = ''z'',
                     loki_Resources = [\<lparr>res_Name = ''user'', res_RowCount = 3, res_Fields = [],
                                        res_PluralName = ''users''\<rparr>]\<rparr>]
      else DoError)"

definition graph_via_b :: Graph where
  \<open>graph_via_b = Update sample_unmarshal NewGraph ''{"n":"heimdall","nb":["b"]}''\<close>

definition graph_via_d :: Graph where
  \<open>graph_via_d = Update sample_unmarshal NewGraph ''{"n":"heimdall","nb":["d"]}''\<close>

section \<open>Properties of the graph\<close>

subsection \<open>Update\<close>

lemma index_edges_fmupd [simp]:
  "index_edges (fmupd k v g) k' = (if k = k' then v else index_edges g k')"
  by (simp add: index_edges_def)

lemma index_edges_fmempty [simp]: "index_edges fmempty k = []"
  by (simp add: index_edges_def)

text \<open>As sets, the reverse-edge loop adds \<open>n\<close> to the list of every neighbor in \<open>ns\<close> and
  changes nothing else.\<close>

lemma index_add_reverse:
  "set (index_edges (add_reverse n ns g) b) =
   set (index_edges g b) \<union> (if b \<in> set ns then {n} else {})"
proof (induction ns arbitrary: g)
  case Nil
  then show ?case by simp
next
  case (Cons nb rest)
  show ?case
  proof (cases "n \<in> set (index_edges g nb)")
    case True
    then show ?thesis using Cons.IH [of g] by auto
  next
    case False
    have "set (index_edges (fmupd nb (index_edges g nb @ [n]) g) b) =
          set (index_edges g b) \<union> (if b = nb then {n} else {})"
      by simp
    with False show ?thesis using Cons.IH [of "fmupd nb (index_edges g nb @ [n]) g"] by auto
  qed
qed

text \<open>The loop leaves the announcing node's own entry alone: it would only touch it for a
  self-loop, and then the node is already in its own list.\<close>

lemma add_reverse_keeps_node:
  "(node \<in> set ns \<longrightarrow> node \<in> set (index_edges g node)) \<Longrightarrow>
   fmlookup (add_reverse node ns g) node = fmlookup g node"
proof (induction ns arbitrary: g)
  case Nil
  then show ?case by simp
next
  case (Cons nb rest)
  show ?case
  proof (cases "nb = node")
    case True
    with Cons.prems have found: "node \<in> set (index_edges g nb)" by simp
    with Cons.prems Cons.IH [of g] show ?thesis by simp
  next
    case False
    let ?g' = "fmupd nb (index_edges g nb @ [node]) g"
    have eq: "fmlookup ?g' node = fmlookup g node" using False by simp
    have "index_edges ?g' node = index_edges g node" using False by simp
    with Cons.prems False have "node \<in> set rest \<longrightarrow> node \<in> set (index_edges ?g' node)" by simp
    from Cons.IH [OF this] eq have a: "fmlookup (add_reverse node rest ?g') node = fmlookup g node"
      by simp
    from Cons.prems False have "node \<in> set rest \<longrightarrow> node \<in> set (index_edges g node)" by simp
    from Cons.IH [OF this] have b: "fmlookup (add_reverse node rest g) node = fmlookup g node" .
    show ?thesis using a b by (simp add: Let_def)
  qed
qed

lemma Update_entry:
  "unmarshal p = Some event \<Longrightarrow>
   fmlookup (Update unmarshal g p) (Node event) = Some (Neighbors event)"
  by (simp add: Update_def add_reverse_keeps_node)

lemma index_Update:
  "unmarshal p = Some event \<Longrightarrow>
   set (index_edges (Update unmarshal g p) b) =
     (if b = Node event then set (Neighbors event)
      else set (index_edges g b) \<union> (if b \<in> set (Neighbors event) then {Node event} else {}))"
  by (auto simp: Update_def index_add_reverse)

lemma Update_malformed: "unmarshal p = None \<Longrightarrow> Update unmarshal g p = g"
  by (simp add: Update_def)

text \<open>Right after an update with a well-formed payload, the forward and the reverse edge of
  every announced neighbor are in the map.\<close>

lemma Update_adds_both_edges:
  "unmarshal p = Some event \<Longrightarrow> b \<in> set (Neighbors event) \<Longrightarrow>
   b \<in> set (index_edges (Update unmarshal g p) (Node event)) \<and>
   Node event \<in> set (index_edges (Update unmarshal g p) b)"
  by (auto simp: index_Update)

text \<open>C1: the adjacency map is meant to be symmetric after every run of updates; the code
  loses the symmetry. From the new graph, \<open>a\<close> announces \<open>b\<close>: the map gets \<open>a \<rightarrow> b\<close> and the
  back-filled \<open>b \<rightarrow> a\<close>. Then \<open>b\<close> announces \<open>c\<close> only: the assignment to the entry of \<open>b\<close>
  overwrites the back-filled edge, and the loop adds \<open>c \<rightarrow> b\<close> and nothing for \<open>a\<close>. The map
  ends as \<open>a: [b]\<close>, \<open>b: [c]\<close>, \<open>c: [b]\<close>: \<open>b\<close> is in the list of \<open>a\<close> and \<open>a\<close> is not in
  the list of \<open>b\<close>.\<close>

theorem Update_symmetry_lost:
  \<open>fmlookup (Updates sample_unmarshal NewGraph [''{"n":"a","nb":["b"]}'']) ''b'' = Some [''a'']
   \<and> fmlookup (Updates sample_unmarshal NewGraph
         [''{"n":"a","nb":["b"]}'', ''{"n":"b","nb":["c"]}'']) ''a'' = Some [''b'']
   \<and> fmlookup (Updates sample_unmarshal NewGraph
         [''{"n":"a","nb":["b"]}'', ''{"n":"b","nb":["c"]}'']) ''b'' = Some [''c'']
   \<and> fmlookup (Updates sample_unmarshal NewGraph
         [''{"n":"a","nb":["b"]}'', ''{"n":"b","nb":["c"]}'']) ''c'' = Some [''b'']
   \<and> ''b'' \<in> set (index_edges (Updates sample_unmarshal NewGraph
         [''{"n":"a","nb":["b"]}'', ''{"n":"b","nb":["c"]}'']) ''a'')
   \<and> ''a'' \<notin> set (index_edges (Updates sample_unmarshal NewGraph
         [''{"n":"a","nb":["b"]}'', ''{"n":"b","nb":["c"]}'']) ''b'')\<close>
  by (simp add: Updates_def Update_def sample_unmarshal_def NewGraph_def Let_def)

text \<open>C4: a payload that does not decode leaves the edge map as it was, with its lists, its
  slices and their arrays; \<^verbatim>\<open>Update\<close> has no result and no error to return, and the event
  loop goes on with the next payload.\<close>

theorem Update_malformed_unchanged:
  "unmarshal eventData = None \<Longrightarrow>
   Update unmarshal g eventData = g \<and>
   Updates unmarshal g (eventData # rest) = Updates unmarshal g rest \<and>
   Update_mem spare unmarshal m eventData = m"
  by (simp add: Update_def Updates_def Update_mem_def)

theorem Update_malformed_unchanged_witness:
  \<open>sample_unmarshal ''not json'' = None \<and>
   Update sample_unmarshal (Update sample_unmarshal NewGraph ''{"n":"a","nb":["b"]}'') ''not json''
     = Update sample_unmarshal NewGraph ''{"n":"a","nb":["b"]}'' \<and>
   Updates sample_unmarshal (Update sample_unmarshal NewGraph ''{"n":"a","nb":["b"]}'')
       [''not json'', ''{"n":"c","nb":["d"]}'']
     = Updates sample_unmarshal (Update sample_unmarshal NewGraph ''{"n":"a","nb":["b"]}'')
       [''{"n":"c","nb":["d"]}''] \<and>
   Update_mem (\<lambda>n. n) sample_unmarshal sample_memory ''not json'' = sample_memory\<close>
proof -
  have none: "sample_unmarshal ''not json'' = None"
    by (simp add: sample_unmarshal_def)
  show ?thesis
    using none
      Update_malformed_unchanged [of sample_unmarshal "''not json''"
        \<open>Update sample_unmarshal NewGraph ''{"n":"a","nb":["b"]}''\<close>
        \<open>[''{"n":"c","nb":["d"]}'']\<close> "\<lambda>n. n" sample_memory]
    by simp
qed

text \<open>C9: after an update whose payload decodes to node \<open>n\<close> with neighbor list \<open>nbs\<close>, the
  entry stored for \<open>n\<close> is exactly \<open>nbs\<close>: a neighbor recorded for \<open>n\<close> before, also one
  back-filled by an announcement of another node, is gone unless \<open>nbs\<close> contains it.\<close>

theorem Update_last_write_wins:
  "unmarshal eventData = Some event \<Longrightarrow>
   fmlookup (Update unmarshal g eventData) (Node event) = Some (Neighbors event) \<and>
   (\<forall>x. x \<notin> set (Neighbors event) \<longrightarrow>
        x \<notin> set (index_edges (Update unmarshal g eventData) (Node event)))"
  by (simp add: Update_entry index_edges_def)

theorem Update_last_write_wins_witness:
  \<open>fmlookup (Update sample_unmarshal NewGraph ''{"n":"b","nb":["a","c"]}'') ''a'' = Some [''b'']
   \<and> fmlookup (Update sample_unmarshal
        (Update sample_unmarshal NewGraph ''{"n":"b","nb":["a","c"]}'') ''{"n":"a","nb":[]}'') ''a''
       = Some []
   \<and> ''b'' \<notin> set (index_edges (Update sample_unmarshal
        (Update sample_unmarshal NewGraph ''{"n":"b","nb":["a","c"]}'') ''{"n":"a","nb":[]}'') ''a'')\<close>
proof -
  have dec: \<open>sample_unmarshal ''{"n":"a","nb":[]}'' = Some \<lparr>Node = ''a'', Neighbors = []\<rparr>\<close>
    by (simp add: sample_unmarshal_def)
  have before:
    \<open>fmlookup (Update sample_unmarshal NewGraph ''{"n":"b","nb":["a","c"]}'') ''a'' = Some [''b'']\<close>
    by (simp add: sample_unmarshal_def Update_def NewGraph_def)
  show ?thesis
    using before
      Update_last_write_wins [of sample_unmarshal \<open>''{"n":"a","nb":[]}''\<close>
        "\<lparr>Node = ''a'', Neighbors = []\<rparr>"
        \<open>Update sample_unmarshal NewGraph ''{"n":"b","nb":["a","c"]}''\<close>, OF dec]
    by simp
qed

subsection \<open>FindPath\<close>

lemma walk_nonempty: "walk g p \<Longrightarrow> p \<noteq> []"
  by (cases p) auto

lemma walk_snoc: "walk g p \<Longrightarrow> v \<in> set (index_edges g (last p)) \<Longrightarrow> walk g (p @ [v])"
  by (induction g p rule: walk.induct) auto

lemma walk_butlast:
  "walk g w \<Longrightarrow> 2 \<le> length w \<Longrightarrow>
   walk g (butlast w) \<and> last w \<in> set (index_edges g (last (butlast w)))"
proof (induction g w rule: walk.induct)
  case (3 g u v rest)
  show ?case
  proof (cases rest)
    case Nil
    with 3 show ?thesis by simp
  next
    case (Cons x xs)
    with 3 show ?thesis by simp
  qed
qed auto

lemma walk_closed:
  "walk g w \<Longrightarrow> hd w \<in> C \<Longrightarrow> (\<forall>u \<in> C. set (index_edges g u) \<subseteq> C) \<Longrightarrow> last w \<in> C"
proof (induction g w rule: walk.induct)
  case (3 g u v rest)
  from 3 have "v \<in> C" by auto
  with 3 show ?case by simp
qed auto

lemma connects_snoc:
  "connects g a u p \<Longrightarrow> v \<in> set (index_edges g u) \<Longrightarrow> connects g a v (p @ [v])"
  by (auto simp: connects_def walk_snoc dest: walk_nonempty)

lemma connects_butlast:
  assumes "connects g a b w" "2 \<le> length w"
  shows "connects g a (last (butlast w)) (butlast w) \<and> b \<in> set (index_edges g (last (butlast w)))"
proof -
  from assms have w: "walk g w" "hd w = a" "last w = b" by (auto simp: connects_def)
  from walk_butlast [OF w(1) assms(2)] have
    "walk g (butlast w)" "last w \<in> set (index_edges g (last (butlast w)))" by auto
  moreover have "hd (butlast w) = hd w" using assms(2) by (cases w) auto
  ultimately show ?thesis using w by (simp add: connects_def)
qed

lemma connects_length1: "connects g a b w \<Longrightarrow> length w \<le> 1 \<Longrightarrow> a = b"
  by (cases w) (auto simp: connects_def)

lemma bfs_inv_init:
  assumes "from \<noteq> to"
  shows "bfs_inv g from to [[from]] {from}"
proof -
  have c: "connects g from from [from]" by (simp add: connects_def)
  have "1 \<le> length w" if "connects g from b w" for w b
    using that by (cases w) (auto simp: connects_def)
  then have s: "shortest g from [from]" using c by (simp add: shortest_def)
  have "1 < length w" if "connects g from b w" "b \<noteq> from" for w b
    using that connects_length1 [of g "from" b w] by (cases "length w \<le> 1") auto
  then have b: "beyond g from {from} (length [from])" by (simp add: beyond_def)
  show ?thesis unfolding bfs_inv_def using assms s b by simp
qed

lemma scan_inv_start:
  assumes inv: "bfs_inv g from to (path # queue) visited"
  shows "scan_inv g from to path (index_edges g (last path)) queue visited"
proof -
  from inv have tv: "to \<notin> visited" "from \<in> visited"
    and all: "\<forall>p \<in> set (path # queue). shortest g from p \<and> last p \<in> visited \<and> length p \<le> Suc (length path)"
    and srt: "sorted (map length (path # queue))"
    and cl: "\<forall>x \<in> visited. x \<notin> last ` set (path # queue) \<longrightarrow> set (index_edges g x) \<subseteq> visited"
    and bey: "beyond g from visited (length path)"
    by (simp_all add: bfs_inv_def)
  from all have cp: "connects g from (last path) path" by (simp add: shortest_def)
  have q: "\<forall>p \<in> set queue. shortest g from p \<and> last p \<in> visited \<and>
         length path \<le> length p \<and> length p \<le> Suc (length path)"
    using all srt by auto
  have srt': "sorted (map length queue)" using srt by simp
  have cl': "\<forall>x \<in> visited. x \<notin> last ` set queue \<longrightarrow> x \<noteq> last path \<longrightarrow>
         set (index_edges g x) \<subseteq> visited"
    using cl by auto
  show ?thesis unfolding scan_inv_def using tv cp q srt' cl' bey by simp
qed

lemma scan_inv_seen:
  assumes inv: "scan_inv g from to path (n # rest) queue visited" and seen: "n \<in> visited"
  shows "scan_inv g from to path rest queue visited"
  using assms unfolding scan_inv_def by auto

lemma scan_inv_found:
  assumes inv: "scan_inv g from to path (to # rest) queue visited"
  shows "connects g from to (path @ [to]) \<and>
         (\<forall>w. connects g from to w \<longrightarrow> length (path @ [to]) \<le> length w)"
proof -
  from inv have tv: "to \<notin> visited"
    and cp: "connects g from (last path) path"
    and sub: "to \<in> set (index_edges g (last path))"
    and bey: "beyond g from visited (length path)"
    by (simp_all add: scan_inv_def)
  have "connects g from to (path @ [to])" using cp sub by (rule connects_snoc)
  moreover have "length (path @ [to]) \<le> length w" if "connects g from to w" for w
    using bey that tv by (fastforce simp: beyond_def)
  ultimately show ?thesis by blast
qed

lemma scan_inv_new:
  assumes inv: "scan_inv g from to path (n # rest) queue visited"
    and nt: "n \<noteq> to" and new: "n \<notin> visited"
  shows "scan_inv g from to path rest (queue @ [path @ [n]]) (insert n visited)"
proof -
  from inv have tv: "to \<notin> visited" "from \<in> visited"
    and cp: "connects g from (last path) path"
    and sub: "set (n # rest) \<subseteq> set (index_edges g (last path))"
    and q: "\<forall>p \<in> set queue. shortest g from p \<and> last p \<in> visited \<and>
         length path \<le> length p \<and> length p \<le> Suc (length path)"
    and srt: "sorted (map length queue)"
    and cl: "\<forall>x \<in> visited. x \<notin> last ` set queue \<longrightarrow> x \<noteq> last path \<longrightarrow>
         set (index_edges g x) \<subseteq> visited"
    and nbs: "set (index_edges g (last path)) \<subseteq> visited \<union> set (n # rest)"
    and bey: "beyond g from visited (length path)"
    by (simp_all add: scan_inv_def)
  have cn: "connects g from n (path @ [n])" using cp sub by (auto intro: connects_snoc)
  have "length (path @ [n]) \<le> length w" if "connects g from n w" for w
    using bey that new by (fastforce simp: beyond_def)
  with cn have sn: "shortest g from (path @ [n])" by (simp add: shortest_def)
  have q': "\<forall>p \<in> set (queue @ [path @ [n]]). shortest g from p \<and> last p \<in> insert n visited \<and>
         length path \<le> length p \<and> length p \<le> Suc (length path)"
    using q sn by auto
  have srt': "sorted (map length (queue @ [path @ [n]]))"
    using srt q by (auto simp: sorted_append)
  have cl': "\<forall>x \<in> insert n visited. x \<notin> last ` set (queue @ [path @ [n]]) \<longrightarrow> x \<noteq> last path \<longrightarrow>
         set (index_edges g x) \<subseteq> insert n visited"
    using cl by auto
  have nbs': "set (index_edges g (last path)) \<subseteq> insert n visited \<union> set rest"
    using nbs by auto
  have bey': "beyond g from (insert n visited) (length path)"
    using bey by (simp add: beyond_def)
  have sub': "set rest \<subseteq> set (index_edges g (last path))" using sub by simp
  show ?thesis unfolding scan_inv_def
    using tv nt cp sub' q' srt' cl' nbs' bey' by simp
qed

lemma scan_neighbors_inv:
  "scan_inv g from to path ns queue visited \<Longrightarrow>
   (case scan_neighbors to path ns queue visited of
      Found p \<Rightarrow> connects g from to p \<and> (\<forall>w. connects g from to w \<longrightarrow> length p \<le> length w)
    | Continue q v \<Rightarrow> scan_inv g from to path [] q v)"
proof (induction ns arbitrary: queue visited)
  case Nil
  then show ?case by simp
next
  case (Cons n rest)
  show ?case
  proof (cases "n = to")
    case True
    with Cons.prems scan_inv_found [of g "from" to path rest queue visited] show ?thesis
      by simp
  next
    case nt: False
    show ?thesis
    proof (cases "n \<in> visited")
      case True
      from Cons.IH [OF scan_inv_seen [OF Cons.prems True]] nt True show ?thesis by simp
    next
      case False
      from Cons.IH [OF scan_inv_new [OF Cons.prems nt False]] nt False show ?thesis by simp
    qed
  qed
qed

lemma sorted_hd_le: "sorted (map length q) \<Longrightarrow> p \<in> set q \<Longrightarrow> length (hd q) \<le> length p"
  by (cases q) auto

lemma scan_inv_end:
  assumes inv: "scan_inv g from to path [] q v"
  shows "bfs_inv g from to q v"
proof -
  from inv have tv: "to \<notin> v" "from \<in> v"
    and cp: "connects g from (last path) path"
    and qs: "\<forall>p \<in> set q. shortest g from p \<and> last p \<in> v \<and>
         length path \<le> length p \<and> length p \<le> Suc (length path)"
    and srt: "sorted (map length q)"
    and cl: "\<forall>x \<in> v. x \<notin> last ` set q \<longrightarrow> x \<noteq> last path \<longrightarrow> set (index_edges g x) \<subseteq> v"
    and nbs: "set (index_edges g (last path)) \<subseteq> v"
    and bey: "beyond g from v (length path)"
    by (simp_all add: scan_inv_def)
  have closed: "\<forall>x \<in> v. x \<notin> last ` set q \<longrightarrow> set (index_edges g x) \<subseteq> v"
    using cl nbs by blast
  have hdq: "length path \<le> length (hd q)" if "q \<noteq> []"
    using qs that by (cases q) auto
  have bound: "\<forall>p \<in> set q. shortest g from p \<and> last p \<in> v \<and> length p \<le> Suc (length (hd q))"
  proof
    fix p assume p: "p \<in> set q"
    then have "q \<noteq> []" by auto
    from hdq [OF this] qs p show "shortest g from p \<and> last p \<in> v \<and> length p \<le> Suc (length (hd q))"
      by auto
  qed
  have far: "beyond g from v (length (hd q))" if ne: "q \<noteq> []"
    unfolding beyond_def
  proof (intro allI impI)
    fix w b
    assume w: "connects g from b w" and b: "b \<notin> v"
    from bey w b have lw: "length path < length w" by (simp add: beyond_def)
    show "length (hd q) < length w"
    proof (rule ccontr)
      assume "\<not> length (hd q) < length w"
      moreover have "hd q \<in> set q" using ne by simp
      with qs have "length (hd q) \<le> Suc (length path)" by blast
      ultimately have eq: "length w = Suc (length path)" "length (hd q) = Suc (length path)"
        using lw by auto
      from cp have "path \<noteq> []" by (auto simp: connects_def dest: walk_nonempty)
      with eq have two: "2 \<le> length w" by (cases path) auto
      let ?w' = "butlast w" and ?y = "last (butlast w)"
      from connects_butlast [OF w two] have w': "connects g from ?y ?w'"
        and edge: "b \<in> set (index_edges g ?y)" by auto
      have lw': "length ?w' = length path" using eq by simp
      have yv: "?y \<in> v"
      proof (rule ccontr)
        assume "?y \<notin> v"
        with bey w' have "length path < length ?w'" unfolding beyond_def by blast
        with lw' show False by simp
      qed
      show False
      proof (cases "?y \<in> last ` set q")
        case False
        with closed yv have "set (index_edges g ?y) \<subseteq> v" by blast
        with edge b show False by blast
      next
        case True
        then obtain p where p: "p \<in> set q" "last p = ?y" by auto
        with qs have "shortest g from p" by blast
        with p w' have "length p \<le> length ?w'" unfolding shortest_def by metis
        moreover from sorted_hd_le [OF srt p(1)] have "length (hd q) \<le> length p" .
        ultimately show False using eq lw' by simp
      qed
    qed
  qed
  show ?thesis unfolding bfs_inv_def using tv bound srt closed far by simp
qed

lemma bfs_inv_empty:
  assumes inv: "bfs_inv g from to [] visited"
  shows "\<not> connects g from to w"
proof
  assume w: "connects g from to w"
  from inv have tv: "to \<notin> visited" "from \<in> visited"
    and closed: "\<forall>x \<in> visited. set (index_edges g x) \<subseteq> visited"
    by (simp_all add: bfs_inv_def)
  from w have "walk g w" "hd w \<in> visited" "last w = to" using tv by (auto simp: connects_def)
  from walk_closed [OF this(1,2) closed] this(3) tv show False by simp
qed

lemma bfs_correct:
  "bfs_inv g from to queue visited \<Longrightarrow>
   (case bfs g to queue visited of
      Panic \<Rightarrow> False
    | Return None \<Rightarrow> (\<forall>w. \<not> connects g from to w)
    | Return (Some p) \<Rightarrow>
        connects g from to p \<and> (\<forall>w. connects g from to w \<longrightarrow> length p \<le> length w))"
proof (induction g to queue visited rule: bfs.induct)
  case (1 g to visited)
  then show ?case using bfs_inv_empty by simp
next
  case (2 g to path queue visited)
  from "2.prems" have ne: "path \<noteq> []"
    by (auto simp: bfs_inv_def shortest_def connects_def dest: walk_nonempty)
  note si = scan_neighbors_inv [OF scan_inv_start [OF "2.prems"]]
  show ?case
  proof (cases "scan_neighbors to path (index_edges g (last path)) queue visited")
    case (Found p)
    with si ne show ?thesis by simp
  next
    case (Continue q v)
    with si have "scan_inv g from to path [] q v" by simp
    then have "bfs_inv g from to q v" by (rule scan_inv_end)
    from "2.IH" [OF ne Continue this] ne Continue show ?thesis by simp
  qed
qed

text \<open>C2: for \<open>a \<noteq> b\<close>, \<^verbatim>\<open>FindPath\<close> never panics; a path it returns starts at \<open>a\<close>, ends at
  \<open>b\<close>, follows a recorded edge at every step and has no more nodes (so no more edges) than
  any walk from \<open>a\<close> to \<open>b\<close>; it returns nil exactly when no walk along recorded edges leads
  from \<open>a\<close> to \<open>b\<close>.\<close>

theorem FindPath_shortest:
  "a \<noteq> b \<Longrightarrow>
   (case FindPath g a b of
      Panic \<Rightarrow> False
    | Return None \<Rightarrow> \<not> (\<exists>w. connects g a b w)
    | Return (Some p) \<Rightarrow>
        connects g a b p \<and> (\<forall>w. connects g a b w \<longrightarrow> length p \<le> length w))
   \<and> (FindPath g a b = Return None \<longleftrightarrow> \<not> (\<exists>w. connects g a b w))"
proof -
  assume ab: "a \<noteq> b"
  from bfs_correct [OF bfs_inv_init [OF ab], of g] show ?thesis
    using ab by (auto simp: FindPath_def split: outcome.splits option.splits)
qed

theorem FindPath_shortest_witness:
  "FindPath sample_graph ''a'' ''c'' = Return (Some [''a'', ''b'', ''c''])
   \<and> connects sample_graph ''a'' ''c'' [''a'', ''b'', ''c'']
   \<and> \<not> connects sample_graph ''a'' ''c'' [''a'', ''c'']
   \<and> FindPath sample_graph ''a'' ''d'' = Return None
   \<and> \<not> connects sample_graph ''a'' ''d'' [''a'', ''b'', ''d'']"
proof -
  note g = sample_graph_def Updates_def Update_def sample_unmarshal_def NewGraph_def Let_def
  have p: "FindPath sample_graph ''a'' ''c'' = Return (Some [''a'', ''b'', ''c''])"
    by (simp add: g FindPath_def)
  have n: "FindPath sample_graph ''a'' ''d'' = Return None"
    by (simp add: g FindPath_def)
  have ac: "''a'' \<noteq> ''c''" and ad: "''a'' \<noteq> ''d''" by simp_all
  from FindPath_shortest [OF ac, of sample_graph] p
  have 1: "connects sample_graph ''a'' ''c'' [''a'', ''b'', ''c'']"
    and 2: "\<forall>w. connects sample_graph ''a'' ''c'' w \<longrightarrow> length [''a'', ''b'', ''c''] \<le> length w"
    by simp_all
  from 2 have 3: "\<not> connects sample_graph ''a'' ''c'' [''a'', ''c'']" by fastforce
  from FindPath_shortest [OF ad, of sample_graph] n
  have 4: "\<not> connects sample_graph ''a'' ''d'' [''a'', ''b'', ''d'']" by simp
  show ?thesis using p n 1 3 4 by simp
qed

text \<open>C6: for every node name \<open>x\<close> and every graph, also the empty one and one in which
  \<open>x\<close> never occurs, \<open>FindPath x x\<close> returns the one-element path \<open>[x]\<close>.\<close>

theorem FindPath_self: "FindPath g x x = Return (Some [x])"
  by (simp add: FindPath_def)

subsection \<open>GetNeighbors\<close>

lemma index_graph_of: "index_edges (graph_of m) k = elems (arrays m) (edges_at m k)"
  by (simp add: index_edges_def graph_of_def edges_at_def split: option.split)

lemma graph_of_cong:
  assumes "edges m' = edges m"
    and "\<And>k p n. fmlookup (edges m) k = Some (Slice p n) \<Longrightarrow> arrays m' ! p = arrays m ! p"
  shows "graph_of m' = graph_of m"
proof (rule fmap_ext)
  fix k
  show "fmlookup (graph_of m') k = fmlookup (graph_of m) k"
  proof (cases "fmlookup (edges m) k")
    case None
    with assms(1) show ?thesis by (simp add: graph_of_def)
  next
    case (Some s)
    with assms show ?thesis by (cases s) (simp_all add: graph_of_def)
  qed
qed

lemma validI:
  assumes "\<And>k p n. fmlookup (edges m) k = Some (Slice p n) \<Longrightarrow>
        p < length (arrays m) \<and> n \<le> length (arrays m ! p)"
    and "\<And>k k' p n n'. fmlookup (edges m) k = Some (Slice p n) \<Longrightarrow>
        fmlookup (edges m) k' = Some (Slice p n') \<Longrightarrow> k = k'"
  shows "valid m"
  unfolding valid_def using assms by blast

lemma valid_bounds:
  "valid m \<Longrightarrow> fmlookup (edges m) k = Some (Slice p n) \<Longrightarrow>
   p < length (arrays m) \<and> n \<le> length (arrays m ! p)"
  unfolding valid_def by blast

lemma valid_apart:
  "valid m \<Longrightarrow> fmlookup (edges m) k = Some (Slice p n) \<Longrightarrow>
   fmlookup (edges m) k' = Some (Slice p n') \<Longrightarrow> k = k'"
  unfolding valid_def by blast

lemma graph_of_fmupd:
  assumes "elems h' s' = xs"
    and "\<And>k' p n. k' \<noteq> k \<Longrightarrow> fmlookup (edges m) k' = Some (Slice p n) \<Longrightarrow>
          take n (h' ! p) = take n (arrays m ! p)"
  shows "graph_of (m\<lparr>edges := fmupd k s' (edges m), arrays := h'\<rparr>) = fmupd k xs (graph_of m)"
proof (rule fmap_ext)
  fix k'
  show "fmlookup (graph_of (m\<lparr>edges := fmupd k s' (edges m), arrays := h'\<rparr>)) k' =
        fmlookup (fmupd k xs (graph_of m)) k'"
  proof (cases "k' = k")
    case True
    with assms(1) show ?thesis by (simp add: graph_of_def)
  next
    case False
    show ?thesis
    proof (cases "fmlookup (edges m) k'")
      case None
      with False show ?thesis by (simp add: graph_of_def)
    next
      case (Some t)
      with False assms(2) [of k'] show ?thesis by (cases t) (auto simp: graph_of_def)
    qed
  qed
qed

lemma edges_at_Slice: "edges_at m k = Slice p n \<Longrightarrow> fmlookup (edges m) k = Some (Slice p n)"
  by (auto simp: edges_at_def split: option.splits)

lemma valid_fmupd:
  assumes v: "valid m"
    and new: "\<And>p n. s' = Slice p n \<Longrightarrow> p < length h' \<and> n \<le> length (h' ! p)"
    and fresh: "\<And>p n k' n'. s' = Slice p n \<Longrightarrow> k' \<noteq> k \<Longrightarrow>
          fmlookup (edges m) k' \<noteq> Some (Slice p n')"
    and old: "\<And>k' p n. k' \<noteq> k \<Longrightarrow> fmlookup (edges m) k' = Some (Slice p n) \<Longrightarrow>
          p < length h' \<and> n \<le> length (h' ! p)"
  shows "valid (m\<lparr>edges := fmupd k s' (edges m), arrays := h'\<rparr>)"
proof (rule validI)
  fix k' p n
  assume "fmlookup (edges (m\<lparr>edges := fmupd k s' (edges m), arrays := h'\<rparr>)) k' = Some (Slice p n)"
  then have l: "(if k = k' then Some s' else fmlookup (edges m) k') = Some (Slice p n)" by simp
  show "p < length (arrays (m\<lparr>edges := fmupd k s' (edges m), arrays := h'\<rparr>)) \<and>
        n \<le> length (arrays (m\<lparr>edges := fmupd k s' (edges m), arrays := h'\<rparr>) ! p)"
  proof (cases "k = k'")
    case True
    with l have "s' = Slice p n" by simp
    from new [OF this] show ?thesis by simp
  next
    case False
    with l have "fmlookup (edges m) k' = Some (Slice p n)" by simp
    from old [OF _ this] False show ?thesis by simp
  qed
next
  fix k1 k2 p n1 n2
  assume "fmlookup (edges (m\<lparr>edges := fmupd k s' (edges m), arrays := h'\<rparr>)) k1 = Some (Slice p n1)"
    and "fmlookup (edges (m\<lparr>edges := fmupd k s' (edges m), arrays := h'\<rparr>)) k2 = Some (Slice p n2)"
  then have l1: "(if k = k1 then Some s' else fmlookup (edges m) k1) = Some (Slice p n1)"
    and l2: "(if k = k2 then Some s' else fmlookup (edges m) k2) = Some (Slice p n2)" by simp_all
  show "k1 = k2"
  proof (cases "k = k1")
    case k1: True
    show ?thesis
    proof (cases "k = k2")
      case True
      with k1 show ?thesis by simp
    next
      case False
      from k1 l1 have "s' = Slice p n1" by simp
      from fresh [OF this, of k2 n2] False l2 show ?thesis by simp
    qed
  next
    case k1: False
    show ?thesis
    proof (cases "k = k2")
      case True
      with l2 have "s' = Slice p n2" by simp
      from fresh [OF this, of k1 n1] k1 l1 show ?thesis by simp
    next
      case False
      with k1 l1 l2 have "fmlookup (edges m) k1 = Some (Slice p n1)"
        "fmlookup (edges m) k2 = Some (Slice p n2)" by simp_all
      then show ?thesis by (rule valid_apart [OF v])
    qed
  qed
qed

lemma append_slice_fresh:
  assumes v: "valid m"
    and s': "s' = Slice (length (arrays m)) (length xs)"
    and h': "h' = arrays m @ [xs @ pad]"
  shows "valid (m\<lparr>edges := fmupd k s' (edges m), arrays := h'\<rparr>)
    \<and> graph_of (m\<lparr>edges := fmupd k s' (edges m), arrays := h'\<rparr>) = fmupd k xs (graph_of m)"
proof -
  have keep: "p < length (arrays m) \<and> n \<le> length (arrays m ! p) \<and> h' ! p = arrays m ! p"
    if "fmlookup (edges m) k' = Some (Slice p n)" for k' p n
    using valid_bounds [OF v that] by (simp add: h' nth_append)
  have val: "valid (m\<lparr>edges := fmupd k s' (edges m), arrays := h'\<rparr>)"
  proof (rule valid_fmupd [OF v])
    fix p n assume "s' = Slice p n"
    with s' have "p = length (arrays m)" "n = length xs" by simp_all
    then show "p < length h' \<and> n \<le> length (h' ! p)" using h' by simp
  next
    fix p n k' n' assume "s' = Slice p n" "k' \<noteq> k"
    then show "fmlookup (edges m) k' \<noteq> Some (Slice p n')" using keep [of k' p n'] s' by auto
  next
    fix k' p n assume "k' \<noteq> k" "fmlookup (edges m) k' = Some (Slice p n)"
    from keep [OF this(2)] show "p < length h' \<and> n \<le> length (h' ! p)" using h' by simp
  qed
  have "elems h' s' = xs" by (simp add: s' h')
  moreover have "take n (h' ! p) = take n (arrays m ! p)"
    if "k' \<noteq> k" "fmlookup (edges m) k' = Some (Slice p n)" for k' p n
    using keep [OF that(2)] by simp
  ultimately have "graph_of (m\<lparr>edges := fmupd k s' (edges m), arrays := h'\<rparr>) = fmupd k xs (graph_of m)"
    by (rule graph_of_fmupd)
  with val show ?thesis by simp
qed

lemma append_slice_inplace:
  assumes v: "valid m"
    and st: "fmlookup (edges m) k = Some (Slice p n)"
    and room: "n < length (arrays m ! p)"
    and s': "s' = Slice p (Suc n)"
    and h': "h' = (arrays m)[p := (arrays m ! p)[n := x]]"
  shows "valid (m\<lparr>edges := fmupd k s' (edges m), arrays := h'\<rparr>)
    \<and> graph_of (m\<lparr>edges := fmupd k s' (edges m), arrays := h'\<rparr>) =
        fmupd k (take n (arrays m ! p) @ [x]) (graph_of m)"
proof -
  from valid_bounds [OF v st] have p: "p < length (arrays m)" by simp
  have other: "p' \<noteq> p" if "k' \<noteq> k" "fmlookup (edges m) k' = Some (Slice p' n')" for k' p' n'
  proof
    assume "p' = p"
    with that(2) have "fmlookup (edges m) k' = Some (Slice p n')" by simp
    from valid_apart [OF v st this] that(1) show False by simp
  qed
  have val: "valid (m\<lparr>edges := fmupd k s' (edges m), arrays := h'\<rparr>)"
  proof (rule valid_fmupd [OF v])
    fix q j assume "s' = Slice q j"
    with s' have "q = p" "j = Suc n" by simp_all
    then show "q < length h' \<and> j \<le> length (h' ! q)" using h' p room by simp
  next
    fix q j k' n' assume "s' = Slice q j" "k' \<noteq> k"
    then show "fmlookup (edges m) k' \<noteq> Some (Slice q n')" using other [of k' q n'] s' by auto
  next
    fix k' q j assume a: "k' \<noteq> k" "fmlookup (edges m) k' = Some (Slice q j)"
    from other [OF a] valid_bounds [OF v a(2)]
    show "q < length h' \<and> j \<le> length (h' ! q)" using h' by simp
  qed
  have "elems h' s' = take n (arrays m ! p) @ [x]"
    using p room by (simp add: s' h' take_Suc_conv_app_nth)
  moreover have "take j (h' ! q) = take j (arrays m ! q)"
    if "k' \<noteq> k" "fmlookup (edges m) k' = Some (Slice q j)" for k' q j
    using other [OF that] by (simp add: h')
  ultimately have "graph_of (m\<lparr>edges := fmupd k s' (edges m), arrays := h'\<rparr>) =
        fmupd k (take n (arrays m ! p) @ [x]) (graph_of m)"
    by (rule graph_of_fmupd)
  with val show ?thesis by simp
qed

lemma append_slice_refines:
  assumes v: "valid m"
    and a: "append_slice spare (edges_at m k) x (arrays m) = (s', h')"
  shows "valid (m\<lparr>edges := fmupd k s' (edges m), arrays := h'\<rparr>)
    \<and> graph_of (m\<lparr>edges := fmupd k s' (edges m), arrays := h'\<rparr>) =
        fmupd k (elems (arrays m) (edges_at m k) @ [x]) (graph_of m)"
proof -
  let ?h = "arrays m"
  consider (nil) "edges_at m k = NilSlice"
    | (inplace) p n where "edges_at m k = Slice p n" "n < length (?h ! p)"
    | (grow) p n where "edges_at m k = Slice p n" "\<not> n < length (?h ! p)"
    by (cases "edges_at m k") auto
  then show ?thesis
  proof cases
    case nil
    with a have "s' = Slice (length ?h) (length [x])"
      and "h' = ?h @ [[x] @ replicate (spare 1) []]"
      by (auto simp: append_slice_def)
    from append_slice_fresh [OF v this] nil show ?thesis by simp
  next
    case inplace
    with a have s': "s' = Slice p (Suc n)" and h': "h' = ?h[p := (?h ! p)[n := x]]"
      by (auto simp: append_slice_def)
    from inplace have st: "fmlookup (edges m) k = Some (Slice p n)" by (simp add: edges_at_Slice)
    from append_slice_inplace [OF v st inplace(2) s' h'] inplace(1) show ?thesis by simp
  next
    case grow
    from grow have st: "fmlookup (edges m) k = Some (Slice p n)" by (simp add: edges_at_Slice)
    from valid_bounds [OF v st] grow(2) have n: "n = length (?h ! p)" by simp
    from grow a have "s' = Slice (length ?h) (length (take n (?h ! p) @ [x]))"
      and "h' = ?h @ [(take n (?h ! p) @ [x]) @ replicate (spare (Suc n)) []]"
      using n by (auto simp: append_slice_def)
    from append_slice_fresh [OF v this] grow(1) show ?thesis by simp
  qed
qed

lemma elems_length:
  "valid m \<Longrightarrow> fmlookup (edges m) k = Some s \<Longrightarrow> length (elems (arrays m) s) = slice_len s"
  by (cases s) (auto dest: valid_bounds)

lemma graph_of_lookup:
  "fmlookup (edges m) k = Some s \<Longrightarrow> fmlookup (graph_of m) k = Some (elems (arrays m) s)"
  by (simp add: graph_of_def)

lemma add_reverse_mem_step:
  "add_reverse_mem spare node s i m =
     (if i < slice_len s then
        (if node \<notin> set (elems (arrays m) (edges_at m (elems (arrays m) s ! i))) then
           add_reverse_mem spare node s (Suc i)
             (m\<lparr>edges := fmupd (elems (arrays m) s ! i)
                    (fst (append_slice spare (edges_at m (elems (arrays m) s ! i)) node (arrays m)))
                    (edges m),
                arrays := snd (append_slice spare (edges_at m (elems (arrays m) s ! i)) node (arrays m))\<rparr>)
         else add_reverse_mem spare node s (Suc i) m)
      else m)"
  by (subst add_reverse_mem.simps) (simp add: Let_def split: prod.split)

lemma add_reverse_mem_refines:
  "valid m \<Longrightarrow> fmlookup (edges m) node = Some s \<Longrightarrow>
   valid (add_reverse_mem spare node s i m) \<and>
   graph_of (add_reverse_mem spare node s i m) =
     add_reverse node (drop i (elems (arrays m) s)) (graph_of m)"
proof (induction "slice_len s - i" arbitrary: i m)
  case 0
  then have "\<not> i < slice_len s" by simp
  moreover from 0 have "length (elems (arrays m) s) = slice_len s" by (simp add: elems_length)
  ultimately show ?case using "0.prems" by (simp add: add_reverse_mem_step [of spare node s i m])
next
  case (Suc d)
  let ?h = "arrays m" and ?xs = "elems (arrays m) s"
  from Suc.hyps(2) have i: "i < slice_len s" by simp
  from Suc.prems have len: "length ?xs = slice_len s" by (simp add: elems_length)
  let ?nb = "?xs ! i"
  let ?ex = "edges_at m ?nb"
  have dr: "drop i ?xs = ?nb # drop (Suc i) ?xs"
    using i len by (simp add: Cons_nth_drop_Suc)
  have ix: "index_edges (graph_of m) ?nb = elems ?h ?ex" by (rule index_graph_of)
  from Suc.hyps(2) have d: "d = slice_len s - Suc i" by simp
  show ?case
  proof (cases "node \<in> set (elems ?h ?ex)")
    case True
    from True i have "add_reverse_mem spare node s i m = add_reverse_mem spare node s (Suc i) m"
      by (simp add: add_reverse_mem_step [of spare node s i m])
    with Suc.hyps(1) [OF d Suc.prems] True show ?thesis
      by (simp add: dr ix)
  next
    case False
    obtain s' h' where a: "append_slice spare ?ex node ?h = (s', h')" by fastforce
    let ?m2 = "m\<lparr>edges := fmupd ?nb s' (edges m), arrays := h'\<rparr>"
    from append_slice_refines [OF Suc.prems(1) a]
    have v2: "valid ?m2" and g2: "graph_of ?m2 = fmupd ?nb (elems ?h ?ex @ [node]) (graph_of m)"
      by simp_all
    have ne: "?nb \<noteq> node"
    proof
      assume eq: "?nb = node"
      with Suc.prems(2) have "?ex = s" by (simp add: edges_at_def)
      moreover have "?nb \<in> set ?xs" using i len by simp
      ultimately show False using False eq by simp
    qed
    then have l2: "fmlookup (edges ?m2) node = Some s" using Suc.prems(2) by simp
    have "fmlookup (graph_of ?m2) node = fmlookup (graph_of m) node"
      using ne by (simp add: g2)
    with graph_of_lookup [OF l2] graph_of_lookup [OF Suc.prems(2)]
    have same: "elems (arrays ?m2) s = ?xs" by simp
    from Suc.hyps(1) [OF d v2 l2]
    have "valid (add_reverse_mem spare node s (Suc i) ?m2) \<and>
      graph_of (add_reverse_mem spare node s (Suc i) ?m2) =
        add_reverse node (drop (Suc i) ?xs) (fmupd ?nb (elems ?h ?ex @ [node]) (graph_of m))"
      by (simp only: same g2)
    moreover from False i a
    have "add_reverse_mem spare node s i m = add_reverse_mem spare node s (Suc i) ?m2"
      by (simp add: add_reverse_mem_step [of spare node s i m])
    ultimately show ?thesis using False
      by (simp add: dr ix)
  qed
qed

lemma valid_NewGraph_mem: "valid NewGraph_mem \<and> graph_of NewGraph_mem = NewGraph"
  by (simp add: valid_def NewGraph_mem_def graph_of_def NewGraph_def)

lemma Update_mem_refines:
  assumes v: "valid m"
  shows "valid (Update_mem spare unmarshal m eventData) \<and>
    graph_of (Update_mem spare unmarshal m eventData) = Update unmarshal (graph_of m) eventData"
proof (cases "unmarshal eventData")
  case None
  with v show ?thesis by (simp add: Update_mem_def Update_def)
next
  case (Some event)
  let ?ns = "Neighbors event" and ?node = "Node event"
  obtain s h where d: "decoded spare ?ns (arrays m) = (s, h)" by fastforce
  let ?m1 = "m\<lparr>edges := fmupd ?node s (edges m), arrays := h\<rparr>"
  have "valid ?m1 \<and> graph_of ?m1 = fmupd ?node ?ns (graph_of m)"
  proof (cases "?ns = []")
    case True
    with d have s: "s = NilSlice" and h: "h = arrays m" by (simp_all add: decoded_def)
    have "valid ?m1"
    proof (rule valid_fmupd [OF v])
      fix k' p n assume "k' \<noteq> ?node" "fmlookup (edges m) k' = Some (Slice p n)"
      from valid_bounds [OF v this(2)] show "p < length h \<and> n \<le> length (h ! p)" by (simp add: h)
    qed (simp_all add: s)
    moreover have "graph_of ?m1 = fmupd ?node ?ns (graph_of m)"
      by (rule graph_of_fmupd) (simp_all add: s h True)
    ultimately show ?thesis by simp
  next
    case False
    with d have "s = Slice (length (arrays m)) (length ?ns)"
      and "h = arrays m @ [?ns @ replicate (spare (length ?ns)) []]"
      by (simp_all add: decoded_def)
    from append_slice_fresh [OF v this] show ?thesis .
  qed
  then have v1: "valid ?m1" and g1: "graph_of ?m1 = fmupd ?node ?ns (graph_of m)" by simp_all
  have l1: "fmlookup (edges ?m1) ?node = Some s" by simp
  from graph_of_lookup [OF l1] g1 have e1: "elems (arrays ?m1) s = ?ns" by simp
  from add_reverse_mem_refines [OF v1 l1, of spare 0] e1 g1
  have "valid (add_reverse_mem spare ?node s 0 ?m1) \<and>
    graph_of (add_reverse_mem spare ?node s 0 ?m1) =
      add_reverse ?node ?ns (fmupd ?node ?ns (graph_of m))"
    by simp
  with Some d show ?thesis by (simp add: Update_mem_def Update_def)
qed

text \<open>Every memory that updates produce from the new graph is well-formed, and its lists are
  those of \<^verbatim>\<open>Update\<close> on lists.\<close>

lemma Updates_mem_refines:
  "valid m \<Longrightarrow>
   valid (Updates_mem spare unmarshal m payloads) \<and>
   graph_of (Updates_mem spare unmarshal m payloads) = Updates unmarshal (graph_of m) payloads"
proof (induction payloads arbitrary: m)
  case Nil
  then show ?case by (simp add: Updates_mem_def Updates_def)
next
  case (Cons p ps)
  from Update_mem_refines [OF Cons.prems, of spare unmarshal p]
  have v: "valid (Update_mem spare unmarshal m p)"
    and g: "graph_of (Update_mem spare unmarshal m p) = Update unmarshal (graph_of m) p"
    by simp_all
  from Cons.IH [OF v] g show ?case by (simp add: Updates_mem_def Updates_def)
qed

text \<open>C8: in a well-formed memory \<^verbatim>\<open>GetNeighbors\<close> returns a slice that is not nil, also for a
  node without entry, whose elements are the stored neighbor list of the node (none for a
  node without entry); the slice points to an array allocated by the call, so the call and
  any later write to that array leave the edge map and its lists as they were.\<close>

theorem GetNeighbors_copy:
  assumes "valid m" and "GetNeighbors m node = (result, m')"
  shows "result = Slice (length (arrays m)) (length (index_edges (graph_of m) node))
    \<and> elems (arrays m') result = index_edges (graph_of m) node
    \<and> (fmlookup (edges m) node = None \<longrightarrow> elems (arrays m') result = [])
    \<and> graph_of m' = graph_of m
    \<and> (\<forall>xs. graph_of (m'\<lparr>arrays := (arrays m')[length (arrays m) := xs]\<rparr>) = graph_of m)
    \<and> (\<forall>spare x. graph_of (m'\<lparr>arrays := snd (append_slice spare result x (arrays m'))\<rparr>)
          = graph_of m)"
proof -
  let ?h = "arrays m" and ?s = "edges_at m node"
  have len: "slice_len ?s = length (elems ?h ?s)"
  proof (cases ?s)
    case NilSlice
    then show ?thesis by simp
  next
    case (Slice p n)
    then have "fmlookup (edges m) node = Some (Slice p n)"
      by (auto simp: edges_at_def split: option.splits)
    with assms(1) have "n \<le> length (?h ! p)" by (auto simp: valid_def)
    with Slice show ?thesis by simp
  qed
  have old: "elems (?h @ [xs]) ?s = elems ?h ?s" for xs
  proof (cases ?s)
    case NilSlice
    then show ?thesis by simp
  next
    case (Slice p n)
    then have "fmlookup (edges m) node = Some (Slice p n)"
      by (auto simp: edges_at_def split: option.splits)
    with assms(1) have "p < length ?h" by (auto simp: valid_def)
    with Slice show ?thesis by (simp add: nth_append)
  qed
  from assms(2) have r: "result = Slice (length ?h) (slice_len ?s)"
    and m': "m' = m\<lparr>arrays := (?h @ [replicate (slice_len ?s) []])
        [length ?h := take (slice_len ?s) (elems (?h @ [replicate (slice_len ?s) []]) ?s)
           @ drop (slice_len ?s) (replicate (slice_len ?s) [])]\<rparr>"
    by (auto simp: GetNeighbors_def make_slice_def Let_def)
  have a: "arrays m' = ?h @ [elems ?h ?s]"
    unfolding m' by (simp add: old len)
  have 1: "result = Slice (length ?h) (length (index_edges (graph_of m) node))"
    using r len by (simp add: index_graph_of)
  have 2: "elems (arrays m') result = index_edges (graph_of m) node"
    using r a len by (simp add: index_graph_of)
  have 3: "fmlookup (edges m) node = None \<longrightarrow> elems (arrays m') result = []"
    using 2 by (simp add: index_edges_def graph_of_def)
  have e: "edges m' = edges m" unfolding m' by simp
  have 4: "graph_of m' = graph_of m"
  proof (rule graph_of_cong [OF e])
    fix k p n assume "fmlookup (edges m) k = Some (Slice p n)"
    with assms(1) have "p < length ?h" by (auto simp: valid_def)
    then show "arrays m' ! p = ?h ! p" by (simp add: a nth_append)
  qed
  have 5: "graph_of (m'\<lparr>arrays := (arrays m')[length ?h := xs]\<rparr>) = graph_of m" for xs
  proof (rule graph_of_cong)
    show "edges (m'\<lparr>arrays := (arrays m')[length ?h := xs]\<rparr>) = edges m" using e by simp
  next
    fix k p n assume "fmlookup (edges m) k = Some (Slice p n)"
    with assms(1) have "p < length ?h" by (auto simp: valid_def)
    then show "arrays (m'\<lparr>arrays := (arrays m')[length ?h := xs]\<rparr>) ! p = ?h ! p"
      by (simp add: a nth_append)
  qed
  have 6: "graph_of (m'\<lparr>arrays := snd (append_slice spare result x (arrays m'))\<rparr>) = graph_of m"
    for spare x
  proof -
    have "snd (append_slice spare result x (arrays m')) =
      arrays m' @ [take (slice_len ?s) (elems ?h ?s) @ x # replicate (spare (Suc (slice_len ?s))) []]"
      by (simp add: append_slice_def r a len)
    then have grown: "snd (append_slice spare result x (arrays m')) ! p = ?h ! p"
      if "p < length ?h" for p
      using that by (simp add: a nth_append)
    show ?thesis
    proof (rule graph_of_cong)
      show "edges (m'\<lparr>arrays := snd (append_slice spare result x (arrays m'))\<rparr>) = edges m"
        using e by simp
    next
      fix k p n assume "fmlookup (edges m) k = Some (Slice p n)"
      with assms(1) have "p < length ?h" by (auto simp: valid_def)
      from grown [OF this]
      show "arrays (m'\<lparr>arrays := snd (append_slice spare result x (arrays m'))\<rparr>) ! p = ?h ! p"
        by simp
    qed
  qed
  show ?thesis using 1 2 3 4 5 6 by blast
qed

theorem GetNeighbors_copy_witness:
  "fst (GetNeighbors sample_memory ''b'') = Slice 5 2
   \<and> elems (arrays (snd (GetNeighbors sample_memory ''b''))) (fst (GetNeighbors sample_memory ''b''))
       = [''a'', ''c'']
   \<and> fst (GetNeighbors sample_memory ''nobody'') = Slice 5 0
   \<and> elems (arrays (snd (GetNeighbors sample_memory ''nobody'')))
         (fst (GetNeighbors sample_memory ''nobody'')) = []
   \<and> graph_of (snd (GetNeighbors sample_memory ''b'')) = graph_of sample_memory
   \<and> graph_of ((snd (GetNeighbors sample_memory ''b''))
         \<lparr>arrays := (arrays (snd (GetNeighbors sample_memory ''b'')))[5 := [''x'', ''y'']]\<rparr>)
       = graph_of sample_memory"
proof -
  have v: "valid sample_memory"
    and g: \<open>graph_of sample_memory = Updates sample_unmarshal NewGraph
       [''{"n":"b","nb":["a","c"]}'', ''{"n":"c","nb":["d"]}'', ''{"n":"a","nb":[]}'']\<close>
    using Updates_mem_refines [of NewGraph_mem] valid_NewGraph_mem
    by (simp_all add: sample_memory_def)
  have l: "length (arrays sample_memory) = 5"
    and nn: "fmlookup (edges sample_memory) ''nobody'' = None"
    by (simp_all add: sample_memory_def Updates_mem_def Update_mem_def sample_unmarshal_def
        NewGraph_mem_def decoded_def add_reverse_mem.simps edges_at_def append_slice_def Let_def)
  have b: "index_edges (graph_of sample_memory) ''b'' = [''a'', ''c'']"
    and n: "index_edges (graph_of sample_memory) ''nobody'' = []"
    by (simp_all add: g Updates_def Update_def sample_unmarshal_def NewGraph_def Let_def)
  define r1 m1 r2 m2 where "r1 = fst (GetNeighbors sample_memory ''b'')"
    and "m1 = snd (GetNeighbors sample_memory ''b'')"
    and "r2 = fst (GetNeighbors sample_memory ''nobody'')"
    and "m2 = snd (GetNeighbors sample_memory ''nobody'')"
  have p1: "GetNeighbors sample_memory ''b'' = (r1, m1)"
    and p2: "GetNeighbors sample_memory ''nobody'' = (r2, m2)"
    by (simp_all add: r1_def m1_def r2_def m2_def)
  note B = GetNeighbors_copy [OF v p1] and N = GetNeighbors_copy [OF v p2]
  from B have B1: "r1 = Slice 5 2" unfolding l b by simp
  from B have B2: "elems (arrays m1) r1 = [''a'', ''c'']" unfolding b by blast
  from B have B3: "graph_of m1 = graph_of sample_memory" by blast
  from B have "\<forall>xs. graph_of (m1\<lparr>arrays := (arrays m1)[5 := xs]\<rparr>) = graph_of sample_memory"
    unfolding l by blast
  then have B4: "graph_of (m1\<lparr>arrays := (arrays m1)[5 := [''x'', ''y'']]\<rparr>) = graph_of sample_memory"
    by blast
  from N have N1: "r2 = Slice 5 0" unfolding l n by simp
  from N nn have N2: "elems (arrays m2) r2 = []" by blast
  show ?thesis
    using B1 B2 B3 B4 N1 N2 unfolding r1_def m1_def r2_def m2_def by blast
qed

section \<open>Properties of the Observer API\<close>

lemma append_infos_shift:
  "append_infos member infos (xs @ ys) = xs @ append_infos member infos ys"
  by (induction infos arbitrary: ys) simp_all

lemma append_infos_acc:
  "append_infos member infos services = services @ append_infos member infos []"
  using append_infos_shift [of member infos services "[]"] by simp

lemma append_members_shift:
  "append_members unmarshal members (xs @ ys) = xs @ append_members unmarshal members ys"
  by (induction members arbitrary: ys) (simp_all add: append_infos_shift split: option.split)

lemma append_members_acc:
  "append_members unmarshal members services = services @ append_members unmarshal members []"
  using append_members_shift [of unmarshal members services "[]"] by simp

lemma buildTopology_concat:
  "Services (buildTopology unmarshal members now) =
   concat (map (\<lambda>member. Services (buildTopology unmarshal [member] now)) members)"
proof (induction members)
  case Nil
  then show ?case by (simp add: buildTopology_def)
next
  case (Cons member rest)
  have "append_members unmarshal (member # rest) [] =
        append_members unmarshal [member] [] @ append_members unmarshal rest []"
    by (simp split: option.split
        add: append_members_acc [of unmarshal rest "append_infos member infos []" for infos]
          append_members_acc [of unmarshal rest "[x]" for x])
  with Cons show ?case by (simp add: buildTopology_def)
qed

lemma append_infos_status:
  "service \<in> set (append_infos member infos []) \<Longrightarrow>
   svc_NodeName service = Name member \<and> svc_Status service = mapStatus (Status member)"
proof (induction infos)
  case Nil
  then show ?case by simp
next
  case (Cons info rest)
  from Cons.prems have "service \<in> set (append_infos member rest []) \<or>
    (svc_NodeName service = Name member \<and> svc_Status service = mapStatus (Status member))"
    using append_infos_acc [of member rest "[x]" for x] by auto
  with Cons.IH show ?case by blast
qed

lemma mapStatus_cases:
  "mapStatus status =
     (if status = ''alive'' then SERVICE_STATUS_HEALTHY
      else if status \<in> {''leaving'', ''left'', ''failed''} then SERVICE_STATUS_UNHEALTHY
      else SERVICE_STATUS_UNKNOWN)"
  by (simp add: mapStatus_def StatusAlive_String_def StatusLeaving_String_def
      StatusLeft_String_def StatusFailed_String_def)

text \<open>C7: the services of a topology are those of its members, member by member, and every
  service derived from a member carries the member's name as its node and the status
  healthy if the member's status is alive, unhealthy if it is leaving, left or failed, and
  unknown for every other string.\<close>

theorem buildTopology_status:
  "Services (buildTopology unmarshal members now) =
     concat (map (\<lambda>member. Services (buildTopology unmarshal [member] now)) members)
   \<and> (\<forall>service \<in> set (Services (buildTopology unmarshal [member] now)).
        svc_NodeName service = Name member \<and>
        svc_Status service =
          (if Status member = ''alive'' then SERVICE_STATUS_HEALTHY
           else if Status member \<in> {''leaving'', ''left'', ''failed''} then SERVICE_STATUS_UNHEALTHY
           else SERVICE_STATUS_UNKNOWN))"
proof (intro conjI ballI)
  show "Services (buildTopology unmarshal members now) =
     concat (map (\<lambda>member. Services (buildTopology unmarshal [member] now)) members)"
    by (rule buildTopology_concat)
next
  fix service
  assume "service \<in> set (Services (buildTopology unmarshal [member] now))"
  then have "svc_NodeName service = Name member \<and> svc_Status service = mapStatus (Status member)"
    by (auto simp: buildTopology_def dest: append_infos_status split: option.splits if_splits)
  then show "svc_NodeName service = Name member" 
    and "svc_Status service =
          (if Status member = ''alive'' then SERVICE_STATUS_HEALTHY
           else if Status member \<in> {''leaving'', ''left'', ''failed''} then SERVICE_STATUS_UNHEALTHY
           else SERVICE_STATUS_UNKNOWN)"
    by (simp_all only: mapStatus_cases)
qed

lemmas sample_defs =
  buildTopology_def sample_members_def member_b_def member_d_def member_heimdall_def
  member_broken_def sample_services_def tag_def mapStatus_def StatusAlive_String_def
  StatusLeaving_String_def StatusLeft_String_def StatusFailed_String_def
  graph_via_b_def graph_via_d_def Update_def sample_unmarshal_def NewGraph_def Let_def
  FindPath_def sample_post_def respond_def





text \<open>C3: \<^verbatim>\<open>GetServiceResources\<close> fails with NotFound when no service of the topology has
  the requested name; with Unavailable when the first service of that name is hosted on a
  node to which \<^verbatim>\<open>FindPath\<close> from \<open>heimdall\<close> returns nil; with Internal when the path has
  one element.\<close>

theorem GetServiceResources_errors:
  "((\<forall>svc \<in> set (Services (buildTopology unmarshal members now)). svc_Name svc \<noteq> name) \<longrightarrow>
      GetServiceResources unmarshal post members now graph name = Return (Inl CodeNotFound))
   \<and> (find (\<lambda>svc. svc_Name svc = name) (Services (buildTopology unmarshal members now))
         = Some target \<and>
       FindPath graph ''heimdall'' (svc_NodeName target) = Return None \<longrightarrow>
      GetServiceResources unmarshal post members now graph name = Return (Inl CodeUnavailable))
   \<and> (find (\<lambda>svc. svc_Name svc = name) (Services (buildTopology unmarshal members now))
         = Some target \<and>
       FindPath graph ''heimdall'' (svc_NodeName target) = Return (Some path) \<and>
       length path = 1 \<longrightarrow>
      GetServiceResources unmarshal post members now graph name = Return (Inl CodeInternal))"
proof (intro conjI impI)
  assume "\<forall>svc \<in> set (Services (buildTopology unmarshal members now)). svc_Name svc \<noteq> name"
  then have "find (\<lambda>svc. svc_Name svc = name) (Services (buildTopology unmarshal members now)) = None"
    by (simp add: find_None_iff)
  then show "GetServiceResources unmarshal post members now graph name = Return (Inl CodeNotFound)"
    by (simp add: GetServiceResources_def)
next
  assume "find (\<lambda>svc. svc_Name svc = name) (Services (buildTopology unmarshal members now))
         = Some target \<and>
       FindPath graph ''heimdall'' (svc_NodeName target) = Return None"
  then show "GetServiceResources unmarshal post members now graph name = Return (Inl CodeUnavailable)"
    by (simp add: GetServiceResources_def)
next
  assume "find (\<lambda>svc. svc_Name svc = name) (Services (buildTopology unmarshal members now))
         = Some target \<and>
       FindPath graph ''heimdall'' (svc_NodeName target) = Return (Some path) \<and>
       length path = 1"
  then show "GetServiceResources unmarshal post members now graph name = Return (Inl CodeInternal)"
    by (simp add: GetServiceResources_def)
qed

theorem GetServiceResources_errors_witness:
  "GetServiceResources sample_services sample_post sample_members 0 graph_via_b ''nope''
     = Return (Inl CodeNotFound)
   \<and> FindPath graph_via_b ''heimdall'' ''d'' = Return None
   \<and> GetServiceResources sample_services sample_post sample_members 0 graph_via_b ''z''
     = Return (Inl CodeUnavailable)
   \<and> FindPath graph_via_b ''heimdall'' ''heimdall'' = Return (Some [''heimdall''])
   \<and> GetServiceResources sample_services sample_post sample_members 0 graph_via_b ''api''
     = Return (Inl CodeInternal)"
proof -
  let ?services = "Services (buildTopology sample_services sample_members 0)"
  have none: "\<forall>svc \<in> set ?services. svc_Name svc \<noteq> ''nope''"
    by (simp add: sample_defs)
  obtain z where z: "find (\<lambda>svc. svc_Name svc = ''z'') ?services = Some z" "svc_NodeName z = ''d''"
    by (simp add: sample_defs)
  obtain api where api: "find (\<lambda>svc. svc_Name svc = ''api'') ?services = Some api"
    "svc_NodeName api = ''heimdall''"
    by (simp add: sample_defs)
  have nopath: "FindPath graph_via_b ''heimdall'' ''d'' = Return None"
    by (simp add: sample_defs)
  have self: "FindPath graph_via_b ''heimdall'' ''heimdall'' = Return (Some [''heimdall''])"
    by (simp add: FindPath_def)
  note inst = GetServiceResources_errors [of sample_services sample_members 0 _ sample_post graph_via_b]
  from inst [of "''nope''"] none
  have 1: "GetServiceResources sample_services sample_post sample_members 0 graph_via_b ''nope''
     = Return (Inl CodeNotFound)" by blast
  from inst [of "''z''" z] z nopath
  have 2: "GetServiceResources sample_services sample_post sample_members 0 graph_via_b ''z''
     = Return (Inl CodeUnavailable)" by simp
  from inst [of "''api''" api "[''heimdall'']"] api self
  have 3: "GetServiceResources sample_services sample_post sample_members 0 graph_via_b ''api''
     = Return (Inl CodeInternal)" by simp
  show ?thesis using 1 2 3 nopath self by simp
qed

text \<open>C10: the entry node is the second element of the path, and its address is the address
  of the first service of the topology hosted on it: if that address is empty the call fails
  with Internal, whatever the addresses of the later services of that node, and otherwise
  the request goes to that address.\<close>

theorem GetServiceResources_entry_address:
  "find (\<lambda>svc. svc_Name svc = name) (Services (buildTopology unmarshal members now)) = Some target \<and>
   FindPath graph ''heimdall'' (svc_NodeName target) = Return (Some path) \<and>
   1 < length path \<and>
   find (\<lambda>svc. svc_NodeName svc = path ! 1) (Services (buildTopology unmarshal members now))
     = Some entry \<longrightarrow>
   GetServiceResources unmarshal post members now graph name =
     (if svc_Address entry = [] then Return (Inl CodeInternal)
      else Return (respond
        (post (''http://'' @ svc_Address entry @ ''/meta.v1.LokiMetaService/GetResources'')
           \<lparr>req_serviceName = name, req_path = tl path, req_currentHop = 0\<rparr>)))"
  by (simp add: GetServiceResources_def Let_def)

theorem GetServiceResources_entry_address_witness:
  "svc_Address (Services (buildTopology sample_services sample_members 0) ! 1) = []
   \<and> svc_NodeName (Services (buildTopology sample_services sample_members 0) ! 1) = ''b''
   \<and> svc_Address (Services (buildTopology sample_services sample_members 0) ! 2) = ''10.0.0.2:8080''
   \<and> svc_NodeName (Services (buildTopology sample_services sample_members 0) ! 2) = ''b''
   \<and> GetServiceResources sample_services sample_post sample_members 0 graph_via_b ''y''
     = Return (Inl CodeInternal)
   \<and> GetServiceResources sample_services sample_post sample_members 0 graph_via_d ''z''
     = Return (Inr [\<lparr>res_Name = ''user'', res_RowCount = 3, res_Fields = [],
                      res_PluralName = ''users''\<rparr>])"
proof -
  let ?services = "Services (buildTopology sample_services sample_members 0)"
  have x: "svc_Address (?services ! 1) = []" "svc_NodeName (?services ! 1) = ''b''"
    and y: "svc_Address (?services ! 2) = ''10.0.0.2:8080''" "svc_NodeName (?services ! 2) = ''b''"
    and z: "svc_Address (?services ! 3) = ''10.0.0.4:9000''" "svc_NodeName (?services ! 3) = ''d''"
    by (simp_all add: sample_defs)
  have fy: "find (\<lambda>svc. svc_Name svc = ''y'') ?services = Some (?services ! 2)"
    and fz: "find (\<lambda>svc. svc_Name svc = ''z'') ?services = Some (?services ! 3)"
    and eb: "find (\<lambda>svc. svc_NodeName svc = ''b'') ?services = Some (?services ! 1)"
    and ed: "find (\<lambda>svc. svc_NodeName svc = ''d'') ?services = Some (?services ! 3)"
    by (simp_all add: sample_defs)
  have pb: "FindPath graph_via_b ''heimdall'' ''b'' = Return (Some [''heimdall'', ''b''])"
    and pd: "FindPath graph_via_d ''heimdall'' ''d'' = Return (Some [''heimdall'', ''d''])"
    by (simp_all add: sample_defs)
  from GetServiceResources_entry_address [of "''y''" sample_services sample_members 0
      "?services ! 2" graph_via_b "[''heimdall'', ''b'']" "?services ! 1" sample_post]
    fy eb pb x y
  have 1: "GetServiceResources sample_services sample_post sample_members 0 graph_via_b ''y''
     = Return (Inl CodeInternal)" by simp
  from GetServiceResources_entry_address [of "''z''" sample_services sample_members 0
      "?services ! 3" graph_via_d "[''heimdall'', ''d'']" "?services ! 3" sample_post]
    fz ed pd z
  have 2: "GetServiceResources sample_services sample_post sample_members 0 graph_via_d ''z''
     = Return (Inr [\<lparr>res_Name = ''user'', res_RowCount = 3, res_Fields = [],
                      res_PluralName = ''users''\<rparr>])"
    by (simp add: sample_post_def respond_def)
  show ?thesis using x y 1 2 by simp
qed

lemma map_const: "\<forall>x \<in> set xs. f x = c \<Longrightarrow> map f xs = replicate (length xs) c"
  by (induction xs) auto

theorem buildTopology_status_witness:
  "map svc_Status (Services (buildTopology sample_services [member_heimdall] 0))
     = [SERVICE_STATUS_UNHEALTHY]
   \<and> map svc_Status (Services (buildTopology sample_services [member_b] 0))
     = [SERVICE_STATUS_HEALTHY, SERVICE_STATUS_HEALTHY]
   \<and> map svc_NodeName (Services (buildTopology sample_services sample_members 0))
     = [''heimdall'', ''b'', ''b'', ''d'']"
proof -
  let ?one = "\<lambda>member. Services (buildTopology sample_services [member] 0)"
  have len: "length (?one member_heimdall) = 1" "length (?one member_b) = 2"
    "length (?one member_broken) = 0" "length (?one member_d) = 1"
    by (simp_all add: sample_defs)
  have st: "Status member_heimdall = ''failed''" "Status member_b = ''alive''"
    "Name member_heimdall = ''heimdall''" "Name member_b = ''b''" "Name member_d = ''d''"
    by (simp_all add: sample_defs)
  note h = buildTopology_status [of sample_services sample_members 0 member_heimdall]
    and b = buildTopology_status [of sample_services sample_members 0 member_b]
    and d = buildTopology_status [of sample_services sample_members 0 member_d]
  have sh: "\<forall>s \<in> set (?one member_heimdall). svc_Status s = SERVICE_STATUS_UNHEALTHY"
    and nh: "\<forall>s \<in> set (?one member_heimdall). svc_NodeName s = ''heimdall''"
    using h st by simp_all
  have sb: "\<forall>s \<in> set (?one member_b). svc_Status s = SERVICE_STATUS_HEALTHY"
    and nb: "\<forall>s \<in> set (?one member_b). svc_NodeName s = ''b''"
    using b st by simp_all
  have nd: "\<forall>s \<in> set (?one member_d). svc_NodeName s = ''d''"
    using d st by simp
  have all: "Services (buildTopology sample_services sample_members 0) =
    ?one member_heimdall @ ?one member_b @ ?one member_broken @ ?one member_d"
    using h by (simp add: sample_members_def)
  have 1: "map svc_Status (?one member_heimdall) = [SERVICE_STATUS_UNHEALTHY]"
    using map_const [OF sh] len by simp
  have 2: "map svc_Status (?one member_b) = [SERVICE_STATUS_HEALTHY, SERVICE_STATUS_HEALTHY]"
    using map_const [OF sb] len by (simp add: numeral_2_eq_2)
  have 3: "map svc_NodeName (Services (buildTopology sample_services sample_members 0))
     = [''heimdall'', ''b'', ''b'', ''d'']"
    using map_const [OF nh] map_const [OF nb] map_const [OF nd] len all
    by (simp add: numeral_2_eq_2)
  show ?thesis using 1 2 3 by simp
qed

end
